theory Spec2Isabelle
  imports Main "HOL-Library.Word"
begin

unbundle bit_operations_syntax

section \<open>Data model of \<open>PA_1_new.cpp\<close>\<close>

text \<open>
  The allocator keeps block headers inside the arenas it obtains from the operating system
  and indexes them in a hash map keyed by header address. The embedding follows the source
  function by function.

  \<^item> Addresses and \<open>size_t\<close> values are natural numbers. The target is taken to be 64-bit
    Windows: \<open>size_t\<close> arithmetic wraps at \<open>2 ^ 64\<close> and \<open>sizeof(MemBlock)\<close> is 16 (one
    8-byte \<open>size_t\<close>, three \<open>bool\<close>s, padded to the alignment of \<open>size_t\<close>). The wrap-around
    is written out wherever a size supplied by the caller enters a computation
    (\<open>align_mem_size\<close>, the arena size request in \<open>mem_alloc\<close>, the guard and the
    remainder of \<open>split_mem_block\<close>, the header lookup \<open>ptr - sizeof(MemBlock)\<close>, the arena
    limit). Stepping from a header to its successor (\<open>base + sizeof(MemBlock) + size\<close>) is
    pointer arithmetic on values read from headers; it is written without wrap-around, and
    lemma \<open>valid_state_no_wrap\<close> shows that in every well-formed state those sums stay
    below \<open>2 ^ 64\<close>.
  \<^item> Memory is kept in two views: \<open>mem s a\<close> is the byte at address \<open>a\<close>, and
    \<open>hdr s a\<close> is the \<open>MemBlock\<close> read through a pointer to \<open>a\<close>. A store to a field of
    a header updates \<open>hdr\<close> and writes the bytes of that field into \<open>mem\<close>, so that
    the bytes a header occupies inside a former payload are seen to change. Bytes written
    by \<open>memcpy\<close> or by the caller are not read back as headers; in a well-formed state
    no indexed header lies in the payload of another block.
  \<^item> Every entry of \<open>block_map\<close> is inserted as \<open>block_map[p] = p\<close>, so the map is
    represented by its keys. The list order stands for the iteration order of the
    \<open>std::unordered_map\<close>, which the source does not control; no result below depends on it.
  \<^item> \<open>VirtualAlloc\<close> is an input: each entry point takes the address \<open>os\<close> the call would
    return if it is made (\<open>0\<close> for \<open>NULL\<close>). Every entry point makes at most one such call.
\<close>

record MemBlock =
  size_b :: nat
  free_b :: bool
  first_b :: bool
  last_b :: bool

record MemArena =
  size_a :: nat
  base_a :: nat

type_synonym byte = "8 word"

record allocator =
  arena_list :: "MemArena list"
  block_map :: "nat list"
  hdr :: "nat \<Rightarrow> MemBlock"
  mem :: "nat \<Rightarrow> byte"

definition header_size :: nat where
  "header_size = 16"

definition default_arena_size :: nat where
  "default_arena_size = 4096"

definition add_sz :: "nat \<Rightarrow> nat \<Rightarrow> nat" where
  "add_sz x y = (x + y) mod 2 ^ 64"

definition sub_sz :: "nat \<Rightarrow> nat \<Rightarrow> nat" where
  "sub_sz x y = (x + (2 ^ 64 - y mod 2 ^ 64)) mod 2 ^ 64"

text \<open>The state before the first call: no arena, an empty index, zeroed memory.\<close>

definition init_state :: allocator where
  "init_state =
     \<lparr>arena_list = [], block_map = [],
      hdr = (\<lambda>_. \<lparr>size_b = 0, free_b = False, first_b = False, last_b = False\<rparr>),
      mem = (\<lambda>_. 0)\<rparr>"

text \<open>
  The bytes of a header: \<open>size\<close> at offset 0, eight bytes with the least significant
  first; \<open>free\<close>, \<open>first\<close> and \<open>last\<close> at offsets 8, 9 and 10, one byte each. The five
  bytes of padding that follow are never written.
\<close>

definition size_byte :: "nat \<Rightarrow> nat \<Rightarrow> byte" where
  "size_byte v i = word_of_nat (v div 256 ^ i)"

definition store_size :: "nat \<Rightarrow> nat \<Rightarrow> (nat \<Rightarrow> byte) \<Rightarrow> nat \<Rightarrow> byte" where
  "store_size a v m = (\<lambda>x. if a \<le> x \<and> x < a + 8 then size_byte v (x - a) else m x)"

definition store_flag :: "nat \<Rightarrow> bool \<Rightarrow> (nat \<Rightarrow> byte) \<Rightarrow> nat \<Rightarrow> byte" where
  "store_flag a b m = m(a := (if b then 1 else 0))"

section \<open>Operations\<close>

text \<open>\<open>return (size + 3) & ~3;\<close>\<close>

definition align_mem_size :: "nat \<Rightarrow> nat" where
  "align_mem_size sz = unat ((word_of_nat sz + 3 :: 64 word) AND NOT 3)"

text \<open>
  \<open>create_new_arena\<close>: \<open>os\<close> is the result of \<open>VirtualAlloc\<close>. On success the arena is put
  at the head of the list, the initial header is written at its base and indexed.
\<close>

definition create_new_arena ::
  "nat \<Rightarrow> nat \<Rightarrow> nat \<Rightarrow> allocator \<Rightarrow> MemArena option \<times> allocator" where
  "create_new_arena sz default_size os s =
     (let sz = max sz default_size;
          sz = align_mem_size sz;
          base = os
      in if base = 0 then (None, s)
         else
           (let arena = \<lparr>size_a = sz, base_a = base\<rparr>;
                initial_block =
                  \<lparr>size_b = sub_sz sz header_size, free_b = True, first_b = True, last_b = True\<rparr>
            in (Some arena,
                s\<lparr>arena_list := arena # arena_list s,
                  hdr := (hdr s)(base := initial_block),
                  mem := store_flag (base + 10) True (store_flag (base + 9) True
                           (store_flag (base + 8) True
                             (store_size base (sub_sz sz header_size) (mem s)))),
                  block_map := List.insert base (block_map s)\<rparr>)))"

text \<open>\<open>split_mem_block\<close>: \<open>block\<close> is the address of the header to split.\<close>

definition split_mem_block :: "nat \<Rightarrow> nat \<Rightarrow> allocator \<Rightarrow> allocator" where
  "split_mem_block block sz s =
     (let sz = align_mem_size sz;
          b = hdr s block
      in if add_sz (add_sz sz header_size) 4 \<le> size_b b then
           (let new_block = block + header_size + sz;
                nb = \<lparr>size_b = sub_sz (sub_sz (size_b b) sz) header_size, free_b = True,
                      first_b = False, last_b = last_b b\<rparr>
            in s\<lparr>hdr := (hdr s)(new_block := nb, block := b\<lparr>size_b := sz, last_b := False\<rparr>),
                 mem := store_flag (block + 10) False (store_size block sz
                          (store_flag (new_block + 10) (last_b b)
                            (store_flag (new_block + 9) False
                              (store_flag (new_block + 8) True
                                (store_size new_block (size_b nb) (mem s)))))),
                 block_map := List.insert new_block (block_map s)\<rparr>)
         else s)"

text \<open>
  \<open>merge_free_blocks\<close>: the first argument is the part of the index the iterator has not
  passed yet, beginning with the entry it points to. Erasing an entry of an
  \<open>unordered_map\<close> keeps the other entries in order, so the erased key leaves both the index
  and the remaining iteration; after a merge the same entry is examined again
  (\<open>continue\<close> without \<open>++it\<close>).
\<close>

function merge_loop :: "nat list \<Rightarrow> allocator \<Rightarrow> allocator" where
  "merge_loop [] s = s"
| "merge_loop (block # rest) s =
     (let b = hdr s block;
          next_block = block + header_size + size_b b
      in if free_b b \<and> next_block \<in> set (block_map s) \<and> free_b (hdr s next_block) then
           merge_loop (block # removeAll next_block rest)
             (s\<lparr>hdr := (hdr s)(block :=
                    b\<lparr>size_b := add_sz (size_b b) (add_sz header_size (size_b (hdr s next_block))),
                      last_b := last_b (hdr s next_block)\<rparr>),
                mem := store_flag (block + 10) (last_b (hdr s next_block))
                         (store_size block
                            (add_sz (size_b b) (add_sz header_size (size_b (hdr s next_block))))
                            (mem s)),
                block_map := removeAll next_block (block_map s)\<rparr>)
         else merge_loop rest s)"
  by pat_completeness auto
termination
  by (relation "measure (\<lambda>(todo, s). length (block_map s) + length todo)")
    (auto intro!: add_less_le_mono length_removeAll_less length_removeAll_less_eq)

definition merge_free_blocks :: "allocator \<Rightarrow> allocator" where
  "merge_free_blocks s = merge_loop (block_map s) s"

text \<open>
  \<open>allocate_memory_block\<close>: the loop walks the headers from \<open>base\<close> up to the arena limit.
  The result \<open>0\<close> is \<open>nullptr\<close>.
\<close>

function scan_blocks :: "nat \<Rightarrow> nat \<Rightarrow> nat \<Rightarrow> allocator \<Rightarrow> nat \<times> allocator" where
  "scan_blocks base lim sz s =
     (if base < lim then
        (let b = hdr s base
         in if free_b b \<and> sz \<le> size_b b then
              (let s1 = split_mem_block base sz s;
                   s2 = s1\<lparr>hdr := (hdr s1)(base := (hdr s1 base)\<lparr>free_b := False\<rparr>),
                          mem := store_flag (base + 8) False (mem s1)\<rparr>
               in (base + header_size, s2))
            else scan_blocks (base + (header_size + size_b b)) lim sz s)
      else (0, s))"
  by pat_completeness auto
termination
  by (relation "measure (\<lambda>(base, lim, sz, s). lim - base)") (auto simp: header_size_def)

definition allocate_memory_block :: "MemArena \<Rightarrow> nat \<Rightarrow> allocator \<Rightarrow> nat \<times> allocator" where
  "allocate_memory_block arena sz s =
     (let sz = align_mem_size sz
      in scan_blocks (base_a arena) (add_sz (base_a arena) (size_a arena)) sz s)"

text \<open>The loop of \<open>mem_alloc\<close> over the arena list, first arena first.\<close>

fun try_arenas :: "MemArena list \<Rightarrow> nat \<Rightarrow> allocator \<Rightarrow> nat \<times> allocator" where
  "try_arenas [] sz s = (0, s)"
| "try_arenas (arena # rest) sz s =
     (case allocate_memory_block arena sz s of
        (ptr, s') \<Rightarrow> if ptr \<noteq> 0 then (ptr, s') else try_arenas rest sz s')"

definition mem_alloc :: "nat \<Rightarrow> nat \<Rightarrow> allocator \<Rightarrow> nat \<times> allocator" where
  "mem_alloc sz os s =
     (if sz = 0 then (0, s)
      else
        (let sz = align_mem_size sz
         in case try_arenas (arena_list s) sz s of
              (ptr, s1) \<Rightarrow>
                if ptr \<noteq> 0 then (ptr, s1)
                else
                  (case create_new_arena (add_sz sz header_size) default_arena_size os s1 of
                     (None, s2) \<Rightarrow> (0, s2)
                   | (Some new_arena, s2) \<Rightarrow> allocate_memory_block new_arena sz s2)))"

definition mem_free :: "nat \<Rightarrow> allocator \<Rightarrow> allocator" where
  "mem_free ptr s =
     (if ptr = 0 then s
      else
        (let block = sub_sz ptr header_size
         in if block \<notin> set (block_map s) then s
            else merge_free_blocks
                   (s\<lparr>hdr := (hdr s)(block := (hdr s block)\<lparr>free_b := True\<rparr>),
                      mem := store_flag (block + 8) True (mem s)\<rparr>)))"

text \<open>\<open>memcpy(dst, src, n)\<close> on the payload bytes.\<close>

definition memcpy :: "nat \<Rightarrow> nat \<Rightarrow> nat \<Rightarrow> allocator \<Rightarrow> allocator" where
  "memcpy dst src n s =
     s\<lparr>mem := (\<lambda>x. if dst \<le> x \<and> x < dst + n then mem s (src + (x - dst)) else mem s x)\<rparr>"

definition mem_realloc :: "nat \<Rightarrow> nat \<Rightarrow> nat \<Rightarrow> allocator \<Rightarrow> nat \<times> allocator" where
  "mem_realloc ptr sz os s =
     (if ptr = 0 then mem_alloc sz os s
      else
        (let sz = align_mem_size sz;
             block = sub_sz ptr header_size
         in if block \<notin> set (block_map s) then (0, s)
            else if sz \<le> size_b (hdr s block) then (ptr, split_mem_block block sz s)
            else
              (case mem_alloc sz os s of
                 (new_ptr, s1) \<Rightarrow>
                   if new_ptr = 0 then (0, s1)
                   else (new_ptr, mem_free ptr (memcpy new_ptr ptr (size_b (hdr s1 block)) s1)))))"

text \<open>A caller writing the bytes \<open>bs\<close> into a payload, starting at \<open>p\<close>.\<close>

definition store_bytes :: "nat \<Rightarrow> byte list \<Rightarrow> allocator \<Rightarrow> allocator" where
  "store_bytes p bs s =
     s\<lparr>mem := (\<lambda>x. if p \<le> x \<and> x < p + length bs then bs ! (x - p) else mem s x)\<rparr>"

definition load_bytes :: "nat \<Rightarrow> nat \<Rightarrow> allocator \<Rightarrow> byte list" where
  "load_bytes p n s = map (\<lambda>i. mem s (p + i)) [0..<n]"

section \<open>Properties of states\<close>



text \<open>
  The sum of \<open>header_size + size\<close> over the indexed blocks whose header lies in the
  address range of an arena.
\<close>

definition arena_footprint :: "allocator \<Rightarrow> MemArena \<Rightarrow> nat" where
  "arena_footprint s arena =
     sum_list (map (\<lambda>a. header_size + size_b (hdr s a))
       (filter (\<lambda>a. base_a arena \<le> a \<and> a < base_a arena + size_a arena) (block_map s)))"

text \<open>The condition and the effect of one merge of \<open>merge_free_blocks\<close>, on their own.\<close>

definition mergeable :: "allocator \<Rightarrow> nat \<Rightarrow> bool" where
  "mergeable s block \<longleftrightarrow>
     free_b (hdr s block) \<and> block + header_size + size_b (hdr s block) \<in> set (block_map s) \<and>
     free_b (hdr s (block + header_size + size_b (hdr s block)))"

definition absorb :: "nat \<Rightarrow> allocator \<Rightarrow> allocator" where
  "absorb block s =
     (let b = hdr s block; next_block = block + header_size + size_b b
      in s\<lparr>hdr := (hdr s)(block :=
                b\<lparr>size_b := add_sz (size_b b) (add_sz header_size (size_b (hdr s next_block))),
                  last_b := last_b (hdr s next_block)\<rparr>),
            mem := store_flag (block + 10) (last_b (hdr s next_block))
                     (store_size block
                        (add_sz (size_b b) (add_sz header_size (size_b (hdr s next_block))))
                        (mem s)),
            block_map := removeAll next_block (block_map s)\<rparr>)"

section \<open>Well-formed states\<close>

text \<open>The address right behind the payload of the block at \<open>a\<close>, and behind an arena.\<close>

definition block_end :: "allocator \<Rightarrow> nat \<Rightarrow> nat" where
  "block_end s a = a + header_size + size_b (hdr s a)"

definition arena_end :: "MemArena \<Rightarrow> nat" where
  "arena_end arena = base_a arena + size_a arena"

text \<open>
  A state is well-formed when the index has no duplicate key; every arena starts at a
  non-null 4-byte aligned address, ends below \<open>2 ^ 64\<close> and has its base indexed; two
  different arenas do not overlap (they may touch); every indexed block is 4-byte aligned,
  has an aligned size, lies inside one arena and is followed by the end of that arena or by
  another indexed block; and the footprints \<open>[a, block_end s a)\<close> of two different indexed
  blocks do not overlap.
\<close>

definition valid_state :: "allocator \<Rightarrow> bool" where
  "valid_state s \<longleftrightarrow>
     distinct (block_map s) \<and>
     (\<forall>A \<in> set (arena_list s).
        0 < base_a A \<and> base_a A mod 4 = 0 \<and> arena_end A < 2 ^ 64 \<and>
        base_a A \<in> set (block_map s)) \<and>
     (\<forall>A \<in> set (arena_list s). \<forall>B \<in> set (arena_list s).
        A = B \<or> arena_end A \<le> base_a B \<or> arena_end B \<le> base_a A) \<and>
     (\<forall>a \<in> set (block_map s).
        a mod 4 = 0 \<and> size_b (hdr s a) mod 4 = 0 \<and>
        (\<exists>A \<in> set (arena_list s).
           base_a A \<le> a \<and> block_end s a \<le> arena_end A \<and>
           (block_end s a = arena_end A \<or> block_end s a \<in> set (block_map s)))) \<and>
     (\<forall>a \<in> set (block_map s). \<forall>b \<in> set (block_map s).
        a = b \<or> block_end s a \<le> b \<or> block_end s b \<le> a)"

text \<open>
  The size \<open>mem_alloc\<close> passes to \<open>VirtualAlloc\<close> for a request of \<open>sz\<close> bytes, and what is
  assumed of the answer \<open>os\<close>: it is \<open>NULL\<close>, or a 4-byte aligned region of that size inside
  the address space that overlaps no arena the allocator already has.
\<close>

definition arena_request :: "nat \<Rightarrow> nat" where
  "arena_request sz =
     align_mem_size (max (add_sz (align_mem_size sz) header_size) default_arena_size)"

definition fresh_region :: "nat \<Rightarrow> nat \<Rightarrow> allocator \<Rightarrow> bool" where
  "fresh_region os sz s \<longleftrightarrow>
     os = 0 \<or>
     (os mod 4 = 0 \<and> os + arena_request sz < 2 ^ 64 \<and>
      (\<forall>A \<in> set (arena_list s). arena_end A \<le> os \<or> os + arena_request sz \<le> base_a A))"

text \<open>
  Names for intermediate states of \<open>mem_alloc\<close>: the state after the successful branch of
  the loop in \<open>allocate_memory_block\<close> (split, then \<open>block->free = false\<close>), and the state
  after a successful \<open>create_new_arena\<close>.
\<close>

definition take_block :: "nat \<Rightarrow> nat \<Rightarrow> allocator \<Rightarrow> allocator" where
  "take_block base sz s =
     (let s1 = split_mem_block base sz s
      in s1\<lparr>hdr := (hdr s1)(base := (hdr s1 base)\<lparr>free_b := False\<rparr>),
            mem := store_flag (base + 8) False (mem s1)\<rparr>)"

definition with_arena :: "nat \<Rightarrow> nat \<Rightarrow> allocator \<Rightarrow> allocator" where
  "with_arena os sz s =
     s\<lparr>arena_list := \<lparr>size_a = arena_request sz, base_a = os\<rparr> # arena_list s,
       hdr := (hdr s)(os := \<lparr>size_b = sub_sz (arena_request sz) header_size, free_b = True,
                             first_b = True, last_b = True\<rparr>),
       mem := store_flag (os + 10) True (store_flag (os + 9) True
                (store_flag (os + 8) True
                  (store_size os (sub_sz (arena_request sz) header_size) (mem s)))),
       block_map := List.insert os (block_map s)\<rparr>"

text \<open>\<open>placed s sz r\<close>: the result \<open>r\<close> hands out an indexed free block of \<open>s\<close> that fits.\<close>

definition placed :: "allocator \<Rightarrow> nat \<Rightarrow> nat \<times> allocator \<Rightarrow> bool" where
  "placed s sz r \<longleftrightarrow>
     (\<exists>b \<in> set (block_map s). free_b (hdr s b) \<and> sz \<le> size_b (hdr s b) \<and>
        r = (b + header_size, take_block b sz s))"

text \<open>
  Arenas are detached when none ends exactly where another begins, and the operating
  system answers with a detached region when the region it returns does not even touch an
  arena.
\<close>

definition detached :: "allocator \<Rightarrow> bool" where
  "detached s \<longleftrightarrow>
     (\<forall>A \<in> set (arena_list s). \<forall>B \<in> set (arena_list s). A = B \<or> arena_end A \<noteq> base_a B)"

definition detached_region :: "nat \<Rightarrow> nat \<Rightarrow> allocator \<Rightarrow> bool" where
  "detached_region os sz s \<longleftrightarrow>
     os = 0 \<or>
     (os mod 4 = 0 \<and> os + arena_request sz < 2 ^ 64 \<and>
      (\<forall>A \<in> set (arena_list s). arena_end A < os \<or> os + arena_request sz < base_a A))"

text \<open>
  The walk over the headers of an arena, as in \<open>allocate_memory_block\<close> and \<open>mem_show\<close>:
  the addresses visited from \<open>base\<close> up to the limit.
\<close>

function arena_blocks :: "nat \<Rightarrow> nat \<Rightarrow> allocator \<Rightarrow> nat list" where
  "arena_blocks base lim s =
     (if base < lim then base # arena_blocks (base + (header_size + size_b (hdr s base))) lim s
      else [])"
  by pat_completeness auto
termination
  by (relation "measure (\<lambda>(base, lim, s). lim - base)") (auto simp: header_size_def)

text \<open>
  The states reached from the initial state by calls of the three entry points, by the
  caller writing into memory, and by the hash map changing its iteration order, when every
  region the operating system returns is detached from the arenas.
\<close>

inductive reachable :: "allocator \<Rightarrow> bool" where
  reachable_init: "reachable init_state"
| reachable_alloc:
    "reachable s \<Longrightarrow> detached_region os sz s \<Longrightarrow> reachable (snd (mem_alloc sz os s))"
| reachable_free: "reachable s \<Longrightarrow> reachable (mem_free ptr s)"
| reachable_realloc:
    "reachable s \<Longrightarrow> detached_region os sz s \<Longrightarrow> reachable (snd (mem_realloc ptr sz os s))"
| reachable_store: "reachable s \<Longrightarrow> reachable (store_bytes p bs s)"
| reachable_rehash:
    "reachable s \<Longrightarrow> distinct bm \<Longrightarrow> set bm = set (block_map s) \<Longrightarrow>
     reachable (s\<lparr>block_map := bm\<rparr>)"

section \<open>Call sequences used as concrete inputs\<close>

text \<open>
  \<open>VirtualAlloc\<close> returns regions at multiples of its 64 KiB allocation granularity; the
  sequences below use \<open>0x10000 = 65536\<close> and \<open>0x20000 = 131072\<close>.

  \<open>allocate(100)\<close> returns \<open>65552\<close>, \<open>allocate(200)\<close> returns \<open>65668\<close>, the block right
  behind the first; then the second block is released.
\<close>

definition grow_s1 :: allocator where
  "grow_s1 = snd (mem_alloc 100 65536 init_state)"

definition grow_s2 :: allocator where
  "grow_s2 = snd (mem_alloc 200 0 grow_s1)"

definition grow_s3 :: allocator where
  "grow_s3 = mem_free 65668 grow_s2"



text \<open>\<open>allocate(4)\<close> returns \<open>65552\<close>, a block of payload size 4.\<close>

definition tiny_s1 :: allocator where
  "tiny_s1 = snd (mem_alloc 4 65536 init_state)"

text \<open>
  Two requests of \<open>65520\<close> bytes each need an arena of exactly 64 KiB; the operating system
  places the second arena right behind the first. Both blocks are then released.
\<close>

definition adj_s1 :: allocator where
  "adj_s1 = snd (mem_alloc 65520 65536 init_state)"

definition adj_s2 :: allocator where
  "adj_s2 = snd (mem_alloc 65520 131072 adj_s1)"

definition adj_s3 :: allocator where
  "adj_s3 = mem_free 65552 adj_s2"

definition adj_s4 :: allocator where
  "adj_s4 = mem_free 131088 adj_s3"

text \<open>
  \<open>allocate(50)\<close> returns \<open>65552\<close>; the caller writes 50 bytes there; the states after the
  fallback allocation of \<open>reallocate(65552, 200)\<close> and after the whole call.
\<close>

definition copy_pattern :: "byte list" where
  "copy_pattern = map (\<lambda>i. word_of_nat (7 * i + 3)) [0..<50]"

definition copy_s1 :: allocator where
  "copy_s1 = snd (mem_alloc 50 65536 init_state)"

definition copy_s2 :: allocator where
  "copy_s2 = store_bytes 65552 copy_pattern copy_s1"

definition copy_s3 :: allocator where
  "copy_s3 = snd (mem_alloc (align_mem_size 200) 0 copy_s2)"

definition copy_s4 :: allocator where
  "copy_s4 = snd (mem_realloc 65552 200 0 copy_s2)"

text \<open>Two allocations after the merge across the arena boundary.\<close>

definition adj_s5 :: allocator where
  "adj_s5 = snd (mem_alloc 100 0 adj_s4)"

definition adj_s6 :: allocator where
  "adj_s6 = snd (mem_alloc 70000 0 adj_s5)"

text \<open>
  After the merge across the arena boundary and \<open>allocate(100)\<close>, a second \<open>allocate(100)\<close>
  returns \<open>131204\<close>; then the state after the fallback allocation of
  \<open>reallocate(131204, 65636)\<close>.
\<close>

definition reloc_s1 :: allocator where
  "reloc_s1 = snd (mem_alloc 100 0 adj_s5)"

definition reloc_s2 :: allocator where
  "reloc_s2 = snd (mem_alloc (align_mem_size 65636) 0 reloc_s1)"

section \<open>Arithmetic of sizes\<close>

lemma and_not_mask2: "(x :: 64 word) AND NOT (mask 2) = push_bit 2 (drop_bit 2 x)"
proof (rule bit_eqI)
  fix n
  have "2 \<le> n \<Longrightarrow> Suc (Suc (n - 2)) = n" by simp
  then show "bit (x AND NOT (mask 2)) n = bit (push_bit 2 (drop_bit 2 x)) n"
    by (auto simp add: bit_simps not_less)
qed

lemma and_not_3: "(x :: 64 word) AND NOT 3 = push_bit 2 (drop_bit 2 x)"
proof -
  have "(NOT 3 :: 64 word) = NOT (mask 2)" by (simp add: mask_eq_exp_minus_1)
  then show ?thesis by (simp only: and_not_mask2)
qed

lemma unat_and_not_3: "unat ((x :: 64 word) AND NOT 3) = unat x div 4 * 4"
proof -
  have "unat (push_bit 2 (drop_bit 2 x)) = take_bit 64 (push_bit 2 (unat (drop_bit 2 x)))"
    by (simp add: unsigned_push_bit_eq)
  also have "unat (drop_bit 2 x) = unat x div 4"
    by (simp add: drop_bit_eq_div unat_div)
  also have "take_bit 64 (push_bit 2 (unat x div 4)) = unat x div 4 * 4"
  proof -
    have "unat x < 2 ^ 64" using unsigned_less [of x] by simp
    then have "unat x div 4 * 4 < 2 ^ 64" by (simp add: less_eq_div_iff_mult_less_eq)
    then show ?thesis by (simp add: push_bit_eq_mult take_bit_eq_mod)
  qed
  finally show ?thesis by (simp only: and_not_3)
qed

lemma align_mem_size_eq: "align_mem_size sz = ((sz + 3) mod 2 ^ 64) div 4 * 4"
  unfolding align_mem_size_def unat_and_not_3
  by (simp add: unat_word_ariths unat_of_nat mod_simps)

lemma align_mem_size_0 [simp]: "align_mem_size 0 = 0"
  by (simp add: align_mem_size_eq)

lemma align_mem_size_mod4 [simp]: "align_mem_size sz mod 4 = 0"
  by (simp add: align_mem_size_eq)

lemma align_mem_size_lt: "align_mem_size sz < 2 ^ 64"
proof -
  have "((sz + 3) mod 2 ^ 64) div 4 * 4 \<le> (sz + 3) mod 2 ^ 64" by simp
  also have "\<dots> < 2 ^ 64" by simp
  finally show ?thesis by (simp add: align_mem_size_eq)
qed

lemma align_mem_size_ge: "sz + 3 < 2 ^ 64 \<Longrightarrow> sz \<le> align_mem_size sz"
  by (simp add: align_mem_size_eq)

lemma align_mem_size_le: "sz + 3 < 2 ^ 64 \<Longrightarrow> align_mem_size sz \<le> sz + 3"
  by (simp add: align_mem_size_eq)

lemma div4_mult4: "(x::nat) mod 4 = 0 \<Longrightarrow> (x + 3) div 4 * 4 = x"
  by presburger

lemma align_mem_size_id: "sz mod 4 = 0 \<Longrightarrow> sz < 2 ^ 64 \<Longrightarrow> align_mem_size sz = sz"
proof -
  assume a: "sz mod 4 = 0" and b: "sz < 2 ^ 64"
  have "sz + 3 < 2 ^ 64"
  proof -
    from a have "4 dvd sz" by (simp add: dvd_eq_mod_eq_0)
    then obtain k where k: "sz = 4 * k" by (auto elim: dvdE)
    have "(2::nat) ^ 64 = 4 * 2 ^ 62" by simp
    with b k have "k < 2 ^ 62" by simp
    then have "4 * k + 3 < 4 * 2 ^ 62" by simp
    then show ?thesis using k by simp
  qed
  then have "(sz + 3) mod 2 ^ 64 = sz + 3" by simp
  then show ?thesis using div4_mult4 [OF a] by (simp only: align_mem_size_eq)
qed

lemma align_mem_size_idem [simp]: "align_mem_size (align_mem_size sz) = align_mem_size sz"
  by (rule align_mem_size_id) (rule align_mem_size_mod4, rule align_mem_size_lt)

lemma add_sz_small: "x + y < 2 ^ 64 \<Longrightarrow> add_sz x y = x + y"
  by (simp add: add_sz_def)

lemma sub_sz_small: "y \<le> x \<Longrightarrow> x < 2 ^ 64 \<Longrightarrow> sub_sz x y = x - y"
proof -
  assume a: "y \<le> x" and b: "x < 2 ^ 64"
  then have c: "y mod 2 ^ 64 = y" by simp
  have "x + (2 ^ 64 - y) = (x - y) + 2 ^ 64" using a b by simp
  then have "sub_sz x y = ((x - y) + 2 ^ 64) mod 2 ^ 64" by (simp only: sub_sz_def c)
  also have "\<dots> = x - y" using b by simp
  finally show ?thesis .
qed

lemma header_size_pos [simp]: "0 < header_size"
  by (simp add: header_size_def)

lemma sub_sz_header:
  "block + header_size < 2 ^ 64 \<Longrightarrow> sub_sz (block + header_size) header_size = block"
  using sub_sz_small [of header_size "block + header_size"] by simp

lemma header_size_neq0 [simp]: "header_size \<noteq> 0"
  by (simp add: header_size_def)

declare scan_blocks.simps [simp del]

section \<open>The merge pass\<close>

declare merge_loop.simps(2) [simp del]

lemma merge_loop_merge:
  "mergeable s block \<Longrightarrow>
   merge_loop (block # rest) s =
     merge_loop (block # removeAll (block + header_size + size_b (hdr s block)) rest) (absorb block s)"
  by (simp add: merge_loop.simps(2) [of block rest s] mergeable_def absorb_def Let_def)

lemma merge_loop_skip:
  "\<not> mergeable s block \<Longrightarrow> merge_loop (block # rest) s = merge_loop rest s"
  by (auto simp add: merge_loop.simps(2) [of block rest s] mergeable_def Let_def)

lemma merge_loop_cases [case_names Nil Merge Skip]:
  assumes "\<And>s. P [] s"
    and "\<And>block rest s. mergeable s block \<Longrightarrow>
           P (block # removeAll (block + header_size + size_b (hdr s block)) rest) (absorb block s) \<Longrightarrow>
           P (block # rest) s"
    and "\<And>block rest s. \<not> mergeable s block \<Longrightarrow> P rest s \<Longrightarrow> P (block # rest) s"
  shows "P todo s"
proof (induction todo s rule: merge_loop.induct)
  case (1 s)
  show ?case by (rule assms(1))
next
  case (2 block rest s)
  show ?case
  proof (cases "mergeable s block")
    case True
    then have "P (block # removeAll (block + header_size + size_b (hdr s block)) rest) (absorb block s)"
      using "2.IH"(1) [OF refl refl] by (simp add: mergeable_def absorb_def Let_def)
    with True show ?thesis by (rule assms(2))
  next
    case False
    then have "P rest s"
      using "2.IH"(2) [OF refl refl] by (auto simp add: mergeable_def)
    with False show ?thesis by (rule assms(3))
  qed
qed


lemma take_block_eval: "scan_blocks base lim sz s =
     (if base < lim then
        (if free_b (hdr s base) \<and> sz \<le> size_b (hdr s base) then (base + header_size, take_block base sz s)
         else scan_blocks (base + (header_size + size_b (hdr s base))) lim sz s)
      else (0, s))"
  by (subst scan_blocks.simps) (simp add: take_block_def Let_def)

lemma scan_blocks_null: "fst (scan_blocks base lim sz s) = 0 \<Longrightarrow> snd (scan_blocks base lim sz s) = s"
proof (induction base lim sz s rule: scan_blocks.induct)
  case (1 base lim sz s)
  show ?case
  proof (cases "base < lim")
    case False
    then show ?thesis by (simp add: take_block_eval [of base])
  next
    case True
    show ?thesis
    proof (cases "free_b (hdr s base) \<and> sz \<le> size_b (hdr s base)")
      case fit: True
      with True "1.prems" show ?thesis by (simp add: take_block_eval [of base])
    next
      case nofit: False
      with True "1.prems" "1.IH" [OF True refl] show ?thesis
        by (auto simp add: take_block_eval [of base])
    qed
  qed
qed

lemma allocate_memory_block_null:
  "fst (allocate_memory_block arena sz s) = 0 \<Longrightarrow> snd (allocate_memory_block arena sz s) = s"
  by (simp add: allocate_memory_block_def Let_def scan_blocks_null)

lemma try_arenas_null:
  "fst (try_arenas arenas sz s) = 0 \<Longrightarrow> snd (try_arenas arenas sz s) = s"
proof (induction arenas)
  case Nil
  then show ?case by simp
next
  case (Cons arena rest)
  show ?case
  proof (cases "fst (allocate_memory_block arena sz s) = 0")
    case True
    then have "snd (allocate_memory_block arena sz s) = s" by (rule allocate_memory_block_null)
    with True Cons show ?thesis by (simp add: split_beta)
  next
    case False
    with Cons.prems show ?thesis by (simp add: split_beta)
  qed
qed

lemma mod4_add3_lt: "(x::nat) mod 4 = 0 \<Longrightarrow> x < 2 ^ 64 \<Longrightarrow> x + 3 < 2 ^ 64"
proof -
  assume a: "x mod 4 = 0" and b: "x < 2 ^ 64"
  from a have "4 dvd x" by (simp add: dvd_eq_mod_eq_0)
  then obtain k where k: "x = 4 * k" by (auto elim: dvdE)
  have "(2::nat) ^ 64 = 4 * 2 ^ 62" by simp
  with b k have "k < 2 ^ 62" by simp
  then have "4 * k + 3 < 4 * 2 ^ 62" by simp
  then show ?thesis using k by simp
qed

lemma header_size_mod4 [simp]: "header_size mod 4 = 0"
  by (simp add: header_size_def)

lemma arena_request_bounds:
  assumes "align_mem_size sz + header_size < 2 ^ 64"
  shows "align_mem_size sz + header_size \<le> arena_request sz"
    and "default_arena_size \<le> arena_request sz"
    and "arena_request sz mod 4 = 0"
    and "arena_request sz < 2 ^ 64"
proof -
  let ?m = "max (add_sz (align_mem_size sz) header_size) default_arena_size"
  have a: "add_sz (align_mem_size sz) header_size = align_mem_size sz + header_size"
    using assms by (rule add_sz_small)
  have "(align_mem_size sz + header_size) mod 4 = 0"
    using mod_add_eq [of "align_mem_size sz" 4 header_size] by simp
  moreover have "default_arena_size mod 4 = 0" "default_arena_size < 2 ^ 64"
    by (simp_all add: default_arena_size_def)
  ultimately have m4: "?m mod 4 = 0" and mlt: "?m < 2 ^ 64"
    using assms by (auto simp add: a max_def)
  then have "align_mem_size ?m = ?m" by (rule align_mem_size_id)
  then have eq: "arena_request sz = ?m" by (simp add: arena_request_def)
  show "align_mem_size sz + header_size \<le> arena_request sz" by (simp add: eq a)
  show "default_arena_size \<le> arena_request sz" by (simp add: eq)
  show "arena_request sz mod 4 = 0" using m4 by (simp add: eq)
  show "arena_request sz < 2 ^ 64" using mlt by (simp add: eq)
qed

lemma arena_request_align [simp]: "arena_request (align_mem_size sz) = arena_request sz"
  by (simp add: arena_request_def)

lemma create_new_arena_eq:
  "create_new_arena (add_sz (align_mem_size sz) header_size) default_arena_size os s =
     (if os = 0 then (None, s)
      else (Some \<lparr>size_a = arena_request sz, base_a = os\<rparr>, with_arena os sz s))"
  by (simp add: create_new_arena_def with_arena_def arena_request_def Let_def)

lemma mem_alloc_eq:
  "mem_alloc sz os s =
     (if sz = 0 then (0, s)
      else if fst (try_arenas (arena_list s) (align_mem_size sz) s) \<noteq> 0
        then try_arenas (arena_list s) (align_mem_size sz) s
      else if os = 0 then (0, s)
      else scan_blocks os (add_sz os (arena_request sz)) (align_mem_size sz) (with_arena os sz s))"
proof -
  have "fst (try_arenas (arena_list s) (align_mem_size sz) s) = 0 \<Longrightarrow>
        snd (try_arenas (arena_list s) (align_mem_size sz) s) = s"
    by (rule try_arenas_null)
  then show ?thesis
    by (auto simp add: mem_alloc_def Let_def split_beta create_new_arena_eq
        allocate_memory_block_def)
qed

lemma scan_new_arena:
  assumes "align_mem_size sz + header_size < 2 ^ 64" and "os + arena_request sz < 2 ^ 64"
  shows "scan_blocks os (add_sz os (arena_request sz)) (align_mem_size sz) (with_arena os sz s) =
           (os + header_size, take_block os (align_mem_size sz) (with_arena os sz s))"
proof -
  note b = arena_request_bounds [OF assms(1)]
  have lim: "add_sz os (arena_request sz) = os + arena_request sz"
    using assms(2) by (rule add_sz_small)
  have pos: "0 < arena_request sz" using b(2) by (simp add: default_arena_size_def)
  have "sub_sz (arena_request sz) header_size = arena_request sz - header_size"
    using b(1) b(4) by (intro sub_sz_small) simp_all
  then have h: "hdr (with_arena os sz s) os =
      \<lparr>size_b = arena_request sz - header_size, free_b = True, first_b = True, last_b = True\<rparr>"
    by (simp add: with_arena_def)
  have fit: "align_mem_size sz \<le> arena_request sz - header_size" using b(1) by simp
  show ?thesis
    using pos fit by (subst take_block_eval) (simp add: lim h)
qed

lemma mem_alloc_null:
  assumes "align_mem_size sz + header_size < 2 ^ 64" and "os + arena_request sz < 2 ^ 64"
    and "fst (mem_alloc sz os s) = 0"
  shows "snd (mem_alloc sz os s) = s"
proof (cases "sz = 0 \<or> os = 0")
  case True
  with assms(3) show ?thesis
    by (auto simp add: mem_alloc_eq try_arenas_null split: if_splits)
next
  case False
  with assms(3) show ?thesis
    by (auto simp add: mem_alloc_eq try_arenas_null scan_new_arena [OF assms(1,2)] split: if_splits)
qed

lemma arena_request_eq:
  "arena_request sz = max (add_sz (align_mem_size sz) header_size) default_arena_size"
proof -
  let ?x = "add_sz (align_mem_size sz) header_size"
  have "(align_mem_size sz + header_size) mod 4 = 0"
    using mod_add_eq [of "align_mem_size sz" 4 header_size] by simp
  then have "4 dvd (align_mem_size sz + header_size)" by (simp add: dvd_eq_mod_eq_0)
  moreover have "(4::nat) dvd 2 ^ 64" by simp
  ultimately have "4 dvd ?x" unfolding add_sz_def by (simp add: dvd_mod)
  then have x4: "?x mod 4 = 0" by (simp add: dvd_eq_mod_eq_0)
  have xl: "?x < 2 ^ 64" by (simp add: add_sz_def)
  have "max ?x default_arena_size mod 4 = 0" "max ?x default_arena_size < 2 ^ 64"
    using x4 xl by (simp_all add: max_def default_arena_size_def)
  then have "align_mem_size (max ?x default_arena_size) = max ?x default_arena_size"
    by (rule align_mem_size_id)
  then show ?thesis by (simp add: arena_request_def)
qed

lemma arena_request_ge: "default_arena_size \<le> arena_request sz"
  by (simp add: arena_request_eq)

lemma arena_request_mod4: "arena_request sz mod 4 = 0"
  unfolding arena_request_def by (rule align_mem_size_mod4)

lemma arena_request_lt: "arena_request sz < 2 ^ 64"
  unfolding arena_request_def by (rule align_mem_size_lt)

lemma valid_distinct: "valid_state s \<Longrightarrow> distinct (block_map s)"
  by (simp add: valid_state_def)

lemma valid_arena:
  "valid_state s \<Longrightarrow> A \<in> set (arena_list s) \<Longrightarrow>
   0 < base_a A \<and> base_a A mod 4 = 0 \<and> arena_end A < 2 ^ 64 \<and> base_a A \<in> set (block_map s)"
  by (simp add: valid_state_def)

lemma valid_arenas_disjoint:
  "valid_state s \<Longrightarrow> A \<in> set (arena_list s) \<Longrightarrow> B \<in> set (arena_list s) \<Longrightarrow>
   A = B \<or> arena_end A \<le> base_a B \<or> arena_end B \<le> base_a A"
  by (simp add: valid_state_def)

lemma valid_block:
  "valid_state s \<Longrightarrow> a \<in> set (block_map s) \<Longrightarrow>
   a mod 4 = 0 \<and> size_b (hdr s a) mod 4 = 0 \<and>
   (\<exists>A \<in> set (arena_list s).
      base_a A \<le> a \<and> block_end s a \<le> arena_end A \<and>
      (block_end s a = arena_end A \<or> block_end s a \<in> set (block_map s)))"
  by (simp add: valid_state_def)

lemma valid_blocks_disjoint:
  "valid_state s \<Longrightarrow> a \<in> set (block_map s) \<Longrightarrow> b \<in> set (block_map s) \<Longrightarrow>
   a = b \<or> block_end s a \<le> b \<or> block_end s b \<le> a"
  by (simp add: valid_state_def)

lemma block_end_gt: "a < block_end s a"
  by (simp add: block_end_def)

lemma block_end_ge: "a + header_size \<le> block_end s a"
  by (simp add: block_end_def)

text \<open>An indexed block whose header lies in the range of an arena belongs to that arena.\<close>

lemma valid_block_in_arena:
  assumes v: "valid_state s" and A: "A \<in> set (arena_list s)" and a: "a \<in> set (block_map s)"
    and lo: "base_a A \<le> a" and hi: "a < arena_end A"
  shows "block_end s a \<le> arena_end A"
    and "block_end s a = arena_end A \<or> block_end s a \<in> set (block_map s)"
proof -
  from valid_block [OF v a] obtain B where B: "B \<in> set (arena_list s)"
    and b1: "base_a B \<le> a" and b2: "block_end s a \<le> arena_end B"
    and b3: "block_end s a = arena_end B \<or> block_end s a \<in> set (block_map s)"
    by blast
  have "a < arena_end B" using b2 block_end_gt [of a s] by simp
  with valid_arenas_disjoint [OF v A B] lo hi b1 have "A = B" by auto
  with b2 b3 show "block_end s a \<le> arena_end A"
    and "block_end s a = arena_end A \<or> block_end s a \<in> set (block_map s)" by simp_all
qed

lemma valid_block_bounds:
  assumes v: "valid_state s" and a: "a \<in> set (block_map s)"
  shows "4 \<le> a" and "block_end s a < 2 ^ 64"
proof -
  from valid_block [OF v a] have m: "a mod 4 = 0" by (rule conjunct1)
  from valid_block [OF v a] have "\<exists>A \<in> set (arena_list s).
      base_a A \<le> a \<and> block_end s a \<le> arena_end A \<and>
      (block_end s a = arena_end A \<or> block_end s a \<in> set (block_map s))"
    by (elim conjE)
  then obtain B where B: "B \<in> set (arena_list s)"
    and b1: "base_a B \<le> a" and b2: "block_end s a \<le> arena_end B"
    by (elim bexE conjE)
  from valid_arena [OF v B] have p: "0 < base_a B" and q: "arena_end B < 2 ^ 64" by simp_all
  from b2 q show "block_end s a < 2 ^ 64" by (rule le_less_trans)
  from p b1 have "0 < a" by simp
  then have "a mod 4 \<noteq> 0 \<or> 4 \<le> a" by presburger
  with m show "4 \<le> a" by simp
qed

text \<open>The sums computed from headers stay inside the 64-bit range in a well-formed state.\<close>

lemma valid_state_no_wrap:
  assumes "valid_state s" and "a \<in> set (block_map s)"
  shows "a + header_size + size_b (hdr s a) < 2 ^ 64"
    and "size_b (hdr s a) + header_size + 4 < 2 ^ 64"
  using valid_block_bounds [OF assms] by (simp_all add: block_end_def)

section \<open>Taking a block\<close>

lemma split_mem_block_eq:
  assumes "sz mod 4 = 0" and "sz \<le> size_b (hdr s block)"
    and "size_b (hdr s block) + header_size + 4 < 2 ^ 64"
  shows "split_mem_block block sz s =
     (if sz + header_size + 4 \<le> size_b (hdr s block) then
        s\<lparr>hdr := (hdr s)(block + header_size + sz :=
                \<lparr>size_b = size_b (hdr s block) - sz - header_size, free_b = True,
                  first_b = False, last_b = last_b (hdr s block)\<rparr>,
              block := (hdr s block)\<lparr>size_b := sz, last_b := False\<rparr>),
          mem := store_flag (block + 10) False (store_size block sz
                   (store_flag (block + header_size + sz + 10) (last_b (hdr s block))
                     (store_flag (block + header_size + sz + 9) False
                       (store_flag (block + header_size + sz + 8) True
                         (store_size (block + header_size + sz)
                            (size_b (hdr s block) - sz - header_size) (mem s)))))),
          block_map := List.insert (block + header_size + sz) (block_map s)\<rparr>
      else s)"
proof -
  have lt: "sz < 2 ^ 64" "size_b (hdr s block) < 2 ^ 64" using assms(2,3) by simp_all
  have al: "align_mem_size sz = sz" using assms(1) lt(1) by (rule align_mem_size_id)
  have "sz + header_size + 4 < 2 ^ 64" using assms(2,3) by simp
  then have g: "add_sz (add_sz sz header_size) 4 = sz + header_size + 4"
    by (simp add: add_sz_def)
  have r: "sz + header_size + 4 \<le> size_b (hdr s block) \<Longrightarrow>
      sub_sz (sub_sz (size_b (hdr s block)) sz) header_size = size_b (hdr s block) - sz - header_size"
  proof -
    assume h: "sz + header_size + 4 \<le> size_b (hdr s block)"
    have "sub_sz (size_b (hdr s block)) sz = size_b (hdr s block) - sz"
      using assms(2) lt(2) by (rule sub_sz_small)
    moreover have "sub_sz (size_b (hdr s block) - sz) header_size = size_b (hdr s block) - sz - header_size"
      using h lt(2) by (intro sub_sz_small) simp_all
    ultimately show ?thesis by simp
  qed
  show ?thesis
    by (simp add: split_mem_block_def Let_def al g r)
qed

lemma take_block_fields:
  assumes "sz mod 4 = 0" and "sz \<le> size_b (hdr s b)"
    and "size_b (hdr s b) + header_size + 4 < 2 ^ 64"
  shows "block_map (take_block b sz s) =
           (if sz + header_size + 4 \<le> size_b (hdr s b)
            then List.insert (b + header_size + sz) (block_map s) else block_map s)"
    and "x < b \<or> b + 11 \<le> x \<Longrightarrow> x < b + header_size + sz \<or> b + header_size + sz + 11 \<le> x \<Longrightarrow>
         mem (take_block b sz s) x = mem s x"
    and "arena_list (take_block b sz s) = arena_list s"
    and "a \<noteq> b \<Longrightarrow> \<not> (sz + header_size + 4 \<le> size_b (hdr s b) \<and> a = b + header_size + sz) \<Longrightarrow>
         hdr (take_block b sz s) a = hdr s a"
    and "\<not> free_b (hdr (take_block b sz s) b)"
    and "size_b (hdr (take_block b sz s) b) =
           (if sz + header_size + 4 \<le> size_b (hdr s b) then sz else size_b (hdr s b))"
    and "first_b (hdr (take_block b sz s) b) = first_b (hdr s b)"
    and "last_b (hdr (take_block b sz s) b) =
           (if sz + header_size + 4 \<le> size_b (hdr s b) then False else last_b (hdr s b))"
    and "sz + header_size + 4 \<le> size_b (hdr s b) \<Longrightarrow>
         hdr (take_block b sz s) (b + header_size + sz) =
           \<lparr>size_b = size_b (hdr s b) - sz - header_size, free_b = True,
             first_b = False, last_b = last_b (hdr s b)\<rparr>"
  by (auto simp add: take_block_def Let_def split_mem_block_eq [OF assms]
      store_size_def store_flag_def)

lemmas take_block_valid = take_block_fields [OF _ _ valid_state_no_wrap(2)]

lemma take_block_taken:
  assumes v: "valid_state s" and b: "b \<in> set (block_map s)"
    and sz: "sz mod 4 = 0" "sz \<le> size_b (hdr s b)"
  shows "\<not> free_b (hdr (take_block b sz s) b)"
    and "sz \<le> size_b (hdr (take_block b sz s) b)"
    and "size_b (hdr (take_block b sz s) b) \<le> size_b (hdr s b)"
    and "b \<in> set (block_map (take_block b sz s))"
    and "x < b \<or> block_end s b \<le> x \<Longrightarrow> mem (take_block b sz s) x = mem s x"
    and "arena_list (take_block b sz s) = arena_list s"
proof -
  show "x < b \<or> block_end s b \<le> x \<Longrightarrow> mem (take_block b sz s) x = mem s x"
  proof (cases "sz + header_size + 4 \<le> size_b (hdr s b)")
    case True
    assume "x < b \<or> block_end s b \<le> x"
    with True have "x < b \<or> b + 11 \<le> x"
      and "x < b + header_size + sz \<or> b + header_size + sz + 11 \<le> x"
      by (auto simp add: block_end_def header_size_def)
    then show ?thesis by (rule take_block_valid(2) [OF sz v b])
  next
    case False
    assume "x < b \<or> block_end s b \<le> x"
    then have "x \<noteq> b + 8" by (auto simp add: block_end_def header_size_def)
    with False show ?thesis
      using valid_state_no_wrap(2) [OF v b]
      by (simp add: take_block_def Let_def split_mem_block_eq [OF sz] store_flag_def)
  qed
qed (use sz b in \<open>simp_all add: take_block_valid [OF sz v b]\<close>)

lemma remainder_not_indexed:
  assumes v: "valid_state s" and b: "b \<in> set (block_map s)"
    and sp: "sz + header_size + 4 \<le> size_b (hdr s b)"
  shows "b + header_size + sz \<notin> set (block_map s)"
proof
  assume n: "b + header_size + sz \<in> set (block_map s)"
  have "b + header_size + sz \<noteq> b" by simp
  with valid_blocks_disjoint [OF v n b]
  have "block_end s (b + header_size + sz) \<le> b \<or> block_end s b \<le> b + header_size + sz"
    by auto
  moreover have "b < block_end s (b + header_size + sz)"
    using block_end_gt [of "b + header_size + sz" s] by simp
  moreover have "b + header_size + sz < block_end s b" using sp by (simp add: block_end_def)
  ultimately show False by simp
qed

lemma take_block_others:
  assumes v: "valid_state s" and b: "b \<in> set (block_map s)"
    and sz: "sz mod 4 = 0" "sz \<le> size_b (hdr s b)"
    and a: "a \<in> set (block_map s)" "a \<noteq> b"
  shows "hdr (take_block b sz s) a = hdr s a"
proof -
  have "\<not> (sz + header_size + 4 \<le> size_b (hdr s b) \<and> a = b + header_size + sz)"
    using remainder_not_indexed [OF v b] a(1) by auto
  with a(2) show ?thesis by (rule take_block_valid(4) [OF sz v b])
qed

lemma take_block_new:
  assumes v: "valid_state s" and b: "b \<in> set (block_map s)"
    and sz: "sz mod 4 = 0" "sz \<le> size_b (hdr s b)"
    and a: "a \<in> set (block_map (take_block b sz s))" "a \<notin> set (block_map s)"
  shows "free_b (hdr (take_block b sz s) a)"
  using a by (simp add: take_block_valid(1) [OF sz v b] take_block_valid(9) [OF sz v b] split: if_splits)

text \<open>The payload handed out lies inside the footprint the block had before.\<close>

lemma take_block_disjoint:
  assumes v: "valid_state s" and b: "b \<in> set (block_map s)"
    and sz: "sz mod 4 = 0" "sz \<le> size_b (hdr s b)"
    and a: "a \<in> set (block_map (take_block b sz s))" "a \<noteq> b"
      "\<not> free_b (hdr (take_block b sz s) a)"
  shows "a + header_size + size_b (hdr (take_block b sz s) a) \<le> b + header_size \<or>
         b + header_size + size_b (hdr (take_block b sz s) b) \<le> a + header_size"
proof -
  let ?t = "take_block b sz s"
  from take_block_new [OF v b sz a(1)] a(3) have old: "a \<in> set (block_map s)" by blast
  then have h: "hdr ?t a = hdr s a" using a(2) by (intro take_block_others [OF v b sz])
  from valid_blocks_disjoint [OF v old b] a(2)
  have "block_end s a \<le> b \<or> block_end s b \<le> a" by simp
  moreover have "size_b (hdr ?t b) \<le> size_b (hdr s b)" by (rule take_block_taken(3) [OF v b sz])
  ultimately show ?thesis by (auto simp add: h block_end_def)
qed

section \<open>First fit in a well-formed state\<close>

lemma scan_blocks_skip:
  "base < lim \<Longrightarrow> \<not> (free_b (hdr s base) \<and> sz \<le> size_b (hdr s base)) \<Longrightarrow>
   scan_blocks base lim sz s = scan_blocks (base + (header_size + size_b (hdr s base))) lim sz s"
  by (subst take_block_eval) auto

lemma scan_blocks_valid:
  "valid_state s \<Longrightarrow> A \<in> set (arena_list s) \<Longrightarrow> lim = arena_end A \<Longrightarrow>
   base = lim \<or> base \<in> set (block_map s) \<and> base_a A \<le> base \<and> base < lim \<Longrightarrow>
   fst (scan_blocks base lim sz s) = 0 \<or> placed s sz (scan_blocks base lim sz s)"
proof (induction base lim sz s rule: scan_blocks.induct)
  case (1 base lim sz s)
  note v = "1.prems"(1) and A = "1.prems"(2) and lim = "1.prems"(3)
  show ?case
  proof (cases "base < lim")
    case False
    then show ?thesis by (simp add: take_block_eval [of base])
  next
    case True
    with "1.prems"(4) have b: "base \<in> set (block_map s)" and lo: "base_a A \<le> base" by auto
    show ?thesis
    proof (cases "free_b (hdr s base) \<and> sz \<le> size_b (hdr s base)")
      case fit: True
      with True b show ?thesis
        by (auto simp add: take_block_eval [of base] placed_def)
    next
      case nofit: False
      let ?next = "base + (header_size + size_b (hdr s base))"
      have e: "?next = block_end s base" by (simp add: block_end_def)
      from True lim have hi: "base < arena_end A" by simp
      note in_arena = valid_block_in_arena [OF v A b lo hi]
      have "?next = lim \<or> ?next \<in> set (block_map s) \<and> base_a A \<le> ?next \<and> ?next < lim"
        using in_arena lo by (auto simp add: e lim block_end_def)
      from "1.IH" [OF True refl nofit v A lim this]
      show ?thesis by (simp only: scan_blocks_skip [OF True nofit])
    qed
  qed
qed

lemma allocate_memory_block_valid:
  assumes v: "valid_state s" and A: "A \<in> set (arena_list s)" and sz: "sz mod 4 = 0" "sz < 2 ^ 64"
  shows "fst (allocate_memory_block A sz s) = 0 \<or> placed s sz (allocate_memory_block A sz s)"
proof -
  from valid_arena [OF v A] have lt: "arena_end A < 2 ^ 64"
    and base: "base_a A \<in> set (block_map s)" by simp_all
  have lim: "add_sz (base_a A) (size_a A) = arena_end A"
    using lt by (simp add: arena_end_def add_sz_small)
  have "base_a A < arena_end A \<or> base_a A = arena_end A" by (auto simp add: arena_end_def)
  then have "base_a A = arena_end A \<or>
      base_a A \<in> set (block_map s) \<and> base_a A \<le> base_a A \<and> base_a A < arena_end A"
    using base by auto
  from scan_blocks_valid [OF v A refl this, of sz] show ?thesis
    by (simp add: allocate_memory_block_def Let_def lim align_mem_size_id [OF sz])
qed

lemma try_arenas_valid:
  assumes v: "valid_state s" and sz: "sz mod 4 = 0" "sz < 2 ^ 64"
  shows "set arenas \<subseteq> set (arena_list s) \<Longrightarrow>
     fst (try_arenas arenas sz s) = 0 \<or> placed s sz (try_arenas arenas sz s)"
proof (induction arenas)
  case Nil
  then show ?case by simp
next
  case (Cons A rest)
  then have A: "A \<in> set (arena_list s)" and rest: "set rest \<subseteq> set (arena_list s)" by simp_all
  show ?case
  proof (cases "fst (allocate_memory_block A sz s) = 0")
    case True
    then have "snd (allocate_memory_block A sz s) = s" by (rule allocate_memory_block_null)
    with True Cons.IH [OF rest] show ?thesis by (simp add: split_beta)
  next
    case False
    with allocate_memory_block_valid [OF v A sz] show ?thesis by (simp add: split_beta)
  qed
qed

section \<open>A new arena\<close>

lemma mod4_diff: "(x::nat) mod 4 = 0 \<Longrightarrow> y mod 4 = 0 \<Longrightarrow> (x - y) mod 4 = 0"
  by presburger

lemma mod4_add: "(x::nat) mod 4 = 0 \<Longrightarrow> y mod 4 = 0 \<Longrightarrow> (x + y) mod 4 = 0"
  by presburger

lemma fresh_region_blocks:
  assumes v: "valid_state s" and f: "fresh_region os sz s" and os: "os \<noteq> 0"
    and a: "a \<in> set (block_map s)"
  shows "block_end s a \<le> os \<or> os + arena_request sz \<le> a"
proof -
  from valid_block [OF v a] obtain B where B: "B \<in> set (arena_list s)"
    and b1: "base_a B \<le> a" and b2: "block_end s a \<le> arena_end B"
    by (elim conjE bexE)
  from f os B have "arena_end B \<le> os \<or> os + arena_request sz \<le> base_a B"
    by (simp add: fresh_region_def)
  with b1 b2 show ?thesis by auto
qed

lemma arena_request_pos: "0 < arena_request sz"
  using arena_request_ge [of sz] by (simp add: default_arena_size_def)

lemma fresh_region_not_indexed:
  assumes v: "valid_state s" and f: "fresh_region os sz s" and os: "os \<noteq> 0"
  shows "os \<notin> set (block_map s)"
proof
  assume "os \<in> set (block_map s)"
  from fresh_region_blocks [OF v f os this] block_end_gt [of os s] arena_request_pos [of sz]
  show False by auto
qed

lemma with_arena_fields:
  "arena_list (with_arena os sz s) = \<lparr>size_a = arena_request sz, base_a = os\<rparr> # arena_list s"
  "block_map (with_arena os sz s) = List.insert os (block_map s)"
  "x < os \<or> os + 11 \<le> x \<Longrightarrow> mem (with_arena os sz s) x = mem s x"
  "a \<noteq> os \<Longrightarrow> hdr (with_arena os sz s) a = hdr s a"
  "free_b (hdr (with_arena os sz s) os)"
  "size_b (hdr (with_arena os sz s) os) = arena_request sz - header_size"
proof -
  have "header_size \<le> arena_request sz"
    using arena_request_ge [of sz] by (simp add: default_arena_size_def header_size_def)
  then have "sub_sz (arena_request sz) header_size = arena_request sz - header_size"
    using arena_request_lt by (rule sub_sz_small)
  then show "size_b (hdr (with_arena os sz s) os) = arena_request sz - header_size"
    by (simp add: with_arena_def)
qed (auto simp add: with_arena_def store_size_def store_flag_def)

lemma with_arena_block_end:
  "block_end (with_arena os sz s) os = os + arena_request sz"
  "a \<noteq> os \<Longrightarrow> block_end (with_arena os sz s) a = block_end s a"
proof -
  have "header_size \<le> arena_request sz"
    using arena_request_ge [of sz] by (simp add: default_arena_size_def header_size_def)
  then show "block_end (with_arena os sz s) os = os + arena_request sz"
    by (simp add: block_end_def with_arena_fields)
qed (simp add: block_end_def with_arena_fields)

lemma valid_with_arena:
  assumes v: "valid_state s" and f: "fresh_region os sz s" and os: "os \<noteq> 0"
  shows "valid_state (with_arena os sz s)"
proof -
  let ?s = "with_arena os sz s"
  let ?N = "\<lparr>size_a = arena_request sz, base_a = os\<rparr>"
  note ni = fresh_region_not_indexed [OF v f os]
  from f os have f4: "os mod 4 = 0" and flt: "os + arena_request sz < 2 ^ 64"
    and fd: "\<And>A. A \<in> set (arena_list s) \<Longrightarrow> arena_end A \<le> os \<or> os + arena_request sz \<le> base_a A"
    by (simp_all add: fresh_region_def)
  have Nend: "arena_end ?N = os + arena_request sz" by (simp add: arena_end_def)
  have ne: "\<And>a. a \<in> set (block_map s) \<Longrightarrow> a \<noteq> os" using ni by blast
  have be: "\<And>a. a \<in> set (block_map s) \<Longrightarrow> block_end ?s a = block_end s a"
    by (rule with_arena_block_end(2)) (rule ne)
  have hd: "\<And>a. a \<in> set (block_map s) \<Longrightarrow> hdr ?s a = hdr s a"
    by (rule with_arena_fields(4)) (rule ne)
  have c1: "distinct (block_map ?s)"
    using valid_distinct [OF v] by (simp add: with_arena_fields)
  have c2: "\<forall>A \<in> set (arena_list ?s).
        0 < base_a A \<and> base_a A mod 4 = 0 \<and> arena_end A < 2 ^ 64 \<and>
        base_a A \<in> set (block_map ?s)"
  proof
    fix A assume "A \<in> set (arena_list ?s)"
    then have "A = ?N \<or> A \<in> set (arena_list s)" by (simp add: with_arena_fields)
    then show "0 < base_a A \<and> base_a A mod 4 = 0 \<and> arena_end A < 2 ^ 64 \<and>
        base_a A \<in> set (block_map ?s)"
    proof
      assume "A = ?N"
      then show ?thesis using os f4 flt by (simp add: arena_end_def with_arena_fields)
    next
      assume "A \<in> set (arena_list s)"
      from valid_arena [OF v this] show ?thesis by (simp add: with_arena_fields)
    qed
  qed
  have c3: "\<forall>A \<in> set (arena_list ?s). \<forall>B \<in> set (arena_list ?s).
        A = B \<or> arena_end A \<le> base_a B \<or> arena_end B \<le> base_a A"
  proof (intro ballI)
    fix A B assume "A \<in> set (arena_list ?s)" "B \<in> set (arena_list ?s)"
    then have A: "A = ?N \<or> A \<in> set (arena_list s)" and B: "B = ?N \<or> B \<in> set (arena_list s)"
      by (simp_all add: with_arena_fields)
    show "A = B \<or> arena_end A \<le> base_a B \<or> arena_end B \<le> base_a A"
    proof (cases "A = ?N")
      case AN: True
      show ?thesis
      proof (cases "B = ?N")
        case True with AN show ?thesis by simp
      next
        case False
        with B fd [of B] AN show ?thesis by (auto simp add: arena_end_def)
      qed
    next
      case AN: False
      show ?thesis
      proof (cases "B = ?N")
        case True
        with A AN fd [of A] show ?thesis by (auto simp add: arena_end_def)
      next
        case False
        with A B AN valid_arenas_disjoint [OF v, of A B] show ?thesis by auto
      qed
    qed
  qed
  have c4: "\<forall>a \<in> set (block_map ?s).
        a mod 4 = 0 \<and> size_b (hdr ?s a) mod 4 = 0 \<and>
        (\<exists>A \<in> set (arena_list ?s).
           base_a A \<le> a \<and> block_end ?s a \<le> arena_end A \<and>
           (block_end ?s a = arena_end A \<or> block_end ?s a \<in> set (block_map ?s)))"
  proof
    fix a assume "a \<in> set (block_map ?s)"
    then have "a = os \<or> a \<in> set (block_map s)" by (simp add: with_arena_fields)
    then show "a mod 4 = 0 \<and> size_b (hdr ?s a) mod 4 = 0 \<and>
        (\<exists>A \<in> set (arena_list ?s).
           base_a A \<le> a \<and> block_end ?s a \<le> arena_end A \<and>
           (block_end ?s a = arena_end A \<or> block_end ?s a \<in> set (block_map ?s)))"
    proof
      assume a: "a = os"
      have "header_size \<le> arena_request sz"
        using arena_request_ge [of sz] by (simp add: default_arena_size_def header_size_def)
      have "(arena_request sz - header_size) mod 4 = 0"
        using arena_request_mod4 [of sz] header_size_mod4 by (rule mod4_diff)
      moreover have "?N \<in> set (arena_list ?s)" by (simp add: with_arena_fields)
      ultimately show ?thesis
        using f4 a by (auto simp add: with_arena_fields with_arena_block_end arena_end_def)
    next
      assume a: "a \<in> set (block_map s)"
      from valid_block [OF v a] obtain B where m: "a mod 4 = 0" "size_b (hdr s a) mod 4 = 0"
        and B: "B \<in> set (arena_list s)"
        and b: "base_a B \<le> a" "block_end s a \<le> arena_end B"
          "block_end s a = arena_end B \<or> block_end s a \<in> set (block_map s)"
        by (elim conjE bexE)
      from B have "B \<in> set (arena_list ?s)" by (simp add: with_arena_fields)
      with m b show ?thesis
        unfolding be [OF a] hd [OF a] by (auto simp add: with_arena_fields)
    qed
  qed
  have c5: "\<forall>a \<in> set (block_map ?s). \<forall>b \<in> set (block_map ?s).
        a = b \<or> block_end ?s a \<le> b \<or> block_end ?s b \<le> a"
  proof (intro ballI)
    fix a b assume "a \<in> set (block_map ?s)" "b \<in> set (block_map ?s)"
    then have a: "a = os \<or> a \<in> set (block_map s)" and b: "b = os \<or> b \<in> set (block_map s)"
      by (simp_all add: with_arena_fields)
    show "a = b \<or> block_end ?s a \<le> b \<or> block_end ?s b \<le> a"
    proof (cases "a = os")
      case ao: True
      show ?thesis
      proof (cases "b = os")
        case True with ao show ?thesis by simp
      next
        case False
        with b have b': "b \<in> set (block_map s)" by simp
        from fresh_region_blocks [OF v f os b'] ao show ?thesis
          by (auto simp add: be [OF b'] with_arena_block_end)
      qed
    next
      case ao: False
      with a have a': "a \<in> set (block_map s)" by simp
      show ?thesis
      proof (cases "b = os")
        case True
        from fresh_region_blocks [OF v f os a'] True show ?thesis
          by (auto simp add: be [OF a'] with_arena_block_end)
      next
        case False
        with b have b': "b \<in> set (block_map s)" by simp
        from valid_blocks_disjoint [OF v a' b'] show ?thesis
          by (simp add: be [OF a'] be [OF b'])
      qed
    qed
  qed
  from c1 c2 c3 c4 c5 show ?thesis unfolding valid_state_def by (intro conjI)
qed

section \<open>Allocation in a well-formed state\<close>

lemma mem_alloc_cases:
  assumes v: "valid_state s" and f: "fresh_region os sz s"
  shows "fst (mem_alloc sz os s) = 0 \<or>
     (\<exists>s'. (s' = s \<or> os \<noteq> 0 \<and> s' = with_arena os sz s) \<and> valid_state s' \<and>
        placed s' (align_mem_size sz) (mem_alloc sz os s))"
proof -
  let ?sz = "align_mem_size sz"
  have sz: "?sz mod 4 = 0" "?sz < 2 ^ 64"
    by (rule align_mem_size_mod4, rule align_mem_size_lt)
  consider (zero) "sz = 0" | (old) "sz \<noteq> 0" "fst (try_arenas (arena_list s) ?sz s) \<noteq> 0"
    | (fail) "sz \<noteq> 0" "fst (try_arenas (arena_list s) ?sz s) = 0" "os = 0"
    | (new) "sz \<noteq> 0" "fst (try_arenas (arena_list s) ?sz s) = 0" "os \<noteq> 0"
    by blast
  then show ?thesis
  proof cases
    case zero
    then show ?thesis by (simp add: mem_alloc_eq)
  next
    case old
    with try_arenas_valid [OF v sz, of "arena_list s"]
    have "placed s ?sz (try_arenas (arena_list s) ?sz s)" by simp
    with old v show ?thesis by (auto simp add: mem_alloc_eq)
  next
    case fail
    then show ?thesis by (simp add: mem_alloc_eq)
  next
    case new
    let ?s = "with_arena os sz s"
    let ?N = "\<lparr>size_a = arena_request sz, base_a = os\<rparr>"
    have v': "valid_state ?s" using v f new(3) by (rule valid_with_arena)
    have N: "?N \<in> set (arena_list ?s)" by (simp add: with_arena_fields)
    from f new(3) have "os + arena_request sz < 2 ^ 64" by (simp add: fresh_region_def)
    then have lim: "add_sz os (arena_request sz) = arena_end ?N"
      by (simp add: arena_end_def add_sz_small)
    have "os \<in> set (block_map ?s) \<and> base_a ?N \<le> os \<and> os < arena_end ?N"
      using arena_request_pos [of sz] by (simp add: with_arena_fields arena_end_def)
    then have "os = arena_end ?N \<or> os \<in> set (block_map ?s) \<and> base_a ?N \<le> os \<and> os < arena_end ?N"
      by (rule disjI2)
    from scan_blocks_valid [OF v' N refl this, of ?sz]
    have "fst (mem_alloc sz os s) = 0 \<or> placed ?s ?sz (mem_alloc sz os s)"
      using new by (simp add: mem_alloc_eq lim)
    with v' new(3) show ?thesis by blast
  qed
qed

section \<open>What the merge pass leaves alone\<close>

lemma absorb_fields:
  "x < block \<or> block + 11 \<le> x \<Longrightarrow> mem (absorb block s) x = mem s x"
  "arena_list (absorb block s) = arena_list s"
  "free_b (hdr (absorb block s) a) = free_b (hdr s a)"
  "a \<noteq> block \<Longrightarrow> hdr (absorb block s) a = hdr s a"
  "block_map (absorb block s) =
     removeAll (block + header_size + size_b (hdr s block)) (block_map s)"
  by (auto simp add: absorb_def Let_def store_size_def store_flag_def)

lemma merge_loop_frame:
  "arena_list (merge_loop todo s) = arena_list s \<and>
   (\<forall>a. free_b (hdr (merge_loop todo s) a) = free_b (hdr s a)) \<and>
   (\<forall>a. \<not> free_b (hdr s a) \<longrightarrow>
      hdr (merge_loop todo s) a = hdr s a \<and>
      (a \<in> set (block_map s) \<longrightarrow> a \<in> set (block_map (merge_loop todo s))))"
proof (induction todo s rule: merge_loop_cases)
  case (Nil s)
  show ?case by simp
next
  case (Merge block rest s)
  let ?nb = "block + header_size + size_b (hdr s block)"
  let ?s = "absorb block s"
  from Merge.hyps have fb: "free_b (hdr s block)" and fn: "free_b (hdr s ?nb)"
    by (simp_all add: mergeable_def)
  have "\<forall>a. \<not> free_b (hdr s a) \<longrightarrow>
      hdr (merge_loop (block # removeAll ?nb rest) ?s) a = hdr s a \<and>
      (a \<in> set (block_map s) \<longrightarrow> a \<in> set (block_map (merge_loop (block # removeAll ?nb rest) ?s)))"
  proof (intro allI impI)
    fix a assume nf: "\<not> free_b (hdr s a)"
    with fb fn have ne: "a \<noteq> block" "a \<noteq> ?nb" by auto
    from nf have "\<not> free_b (hdr ?s a)" by (simp add: absorb_fields)
    with Merge.IH have "hdr (merge_loop (block # removeAll ?nb rest) ?s) a = hdr ?s a"
      and "a \<in> set (block_map ?s) \<longrightarrow> a \<in> set (block_map (merge_loop (block # removeAll ?nb rest) ?s))"
      by blast+
    with ne show "hdr (merge_loop (block # removeAll ?nb rest) ?s) a = hdr s a \<and>
      (a \<in> set (block_map s) \<longrightarrow> a \<in> set (block_map (merge_loop (block # removeAll ?nb rest) ?s)))"
      by (simp add: absorb_fields)
  qed
  with Merge.IH show ?case
    by (simp add: merge_loop_merge [OF Merge.hyps] absorb_fields)
next
  case (Skip block rest s)
  then show ?case by (simp add: merge_loop_skip)
qed

lemma mem_free_released:
  "ptr \<noteq> 0 \<Longrightarrow> sub_sz ptr header_size \<in> set (block_map s) \<Longrightarrow>
   free_b (hdr (mem_free ptr s) (sub_sz ptr header_size))"
  by (simp add: mem_free_def merge_free_blocks_def Let_def merge_loop_frame)

lemma mem_free_in_use:
  assumes "\<not> free_b (hdr s a)" and "a \<noteq> sub_sz ptr header_size"
  shows "hdr (mem_free ptr s) a = hdr s a"
    and "a \<in> set (block_map s) \<Longrightarrow> a \<in> set (block_map (mem_free ptr s))"
proof -
  let ?s = "s\<lparr>hdr := (hdr s)(sub_sz ptr header_size := (hdr s (sub_sz ptr header_size))\<lparr>free_b := True\<rparr>),
              mem := store_flag (sub_sz ptr header_size + 8) True (mem s)\<rparr>"
  have nf: "\<not> free_b (hdr ?s a)" using assms by simp
  from merge_loop_frame [of "block_map ?s" ?s] nf
  have "hdr (merge_loop (block_map ?s) ?s) a = hdr ?s a"
    and "a \<in> set (block_map ?s) \<longrightarrow> a \<in> set (block_map (merge_loop (block_map ?s) ?s))"
    by blast+
  then show "hdr (mem_free ptr s) a = hdr s a"
    and "a \<in> set (block_map s) \<Longrightarrow> a \<in> set (block_map (mem_free ptr s))"
    using assms(2) by (simp_all add: mem_free_def merge_free_blocks_def Let_def)
qed

lemma memcpy_fields:
  "hdr (memcpy dst src n s) = hdr s"
  "block_map (memcpy dst src n s) = block_map s"
  "arena_list (memcpy dst src n s) = arena_list s"
  "mem (memcpy dst src n s) x = (if dst \<le> x \<and> x < dst + n then mem s (src + (x - dst)) else mem s x)"
  by (simp_all add: memcpy_def)

lemma load_store_bytes: "load_bytes p (length bs) (store_bytes p bs s) = bs"
  by (rule nth_equalityI) (simp_all add: load_bytes_def store_bytes_def)

declare arena_blocks.simps [simp del]

section \<open>Operations keep states well-formed\<close>

lemma valid_state_cong:
  assumes "block_map t = block_map s" and "arena_list t = arena_list s"
    and "\<And>a. size_b (hdr t a) = size_b (hdr s a)"
  shows "valid_state t = valid_state s"
proof -
  have "block_end t = block_end s" using assms(3) by (simp add: block_end_def fun_eq_iff)
  then show ?thesis by (simp add: valid_state_def assms)
qed

lemma valid_split:
  assumes v: "valid_state s" and b: "b \<in> set (block_map s)"
    and sz: "sz mod 4 = 0" "sz \<le> size_b (hdr s b)"
  shows "valid_state (take_block b sz s)"
proof (cases "sz + header_size + 4 \<le> size_b (hdr s b)")
  case False
  have "valid_state (take_block b sz s) = valid_state s"
  proof (rule valid_state_cong)
    show "block_map (take_block b sz s) = block_map s"
      using False by (simp add: take_block_valid(1) [OF sz v b])
    show "arena_list (take_block b sz s) = arena_list s"
      by (rule take_block_valid(3) [OF sz v b])
    fix a show "size_b (hdr (take_block b sz s) a) = size_b (hdr s a)"
      using False take_block_valid(4) [OF sz v b, of a] take_block_valid(6) [OF sz v b]
      by (cases "a = b") simp_all
  qed
  with v show ?thesis by simp
next
  case True
  let ?t = "take_block b sz s"
  let ?nb = "b + header_size + sz"
  let ?old = "size_b (hdr s b)"
  note ni = remainder_not_indexed [OF v b True]
  have bm: "block_map ?t = ?nb # block_map s"
    using True ni by (simp add: take_block_valid(1) [OF sz v b])
  have al: "arena_list ?t = arena_list s" by (rule take_block_valid(3) [OF sz v b])
  have hb: "size_b (hdr ?t b) = sz" using True by (simp add: take_block_valid(6) [OF sz v b])
  have hn: "size_b (hdr ?t ?nb) = ?old - sz - header_size"
    using True by (simp add: take_block_valid(9) [OF sz v b])
  have ho: "\<And>a. a \<in> set (block_map s) \<Longrightarrow> a \<noteq> b \<Longrightarrow> hdr ?t a = hdr s a"
    by (rule take_block_others [OF v b sz])
  have eb: "block_end ?t b = ?nb" by (simp add: block_end_def hb)
  have en: "block_end ?t ?nb = block_end s b" using True by (simp add: block_end_def hn)
  have eo: "\<And>a. a \<in> set (block_map s) \<Longrightarrow> a \<noteq> b \<Longrightarrow> block_end ?t a = block_end s a"
    by (simp add: block_end_def ho)
  have lt: "?nb < block_end s b" using True by (simp add: block_end_def)
  from valid_block [OF v b] obtain B where b4: "b mod 4 = 0" and o4: "?old mod 4 = 0"
    and B: "B \<in> set (arena_list s)" and Blo: "base_a B \<le> b"
    and Bhi: "block_end s b \<le> arena_end B"
    and Bnext: "block_end s b = arena_end B \<or> block_end s b \<in> set (block_map s)"
    by (elim conjE bexE)
  have c1: "distinct (block_map ?t)" using valid_distinct [OF v] ni by (simp add: bm)
  have c2: "\<forall>A \<in> set (arena_list ?t).
        0 < base_a A \<and> base_a A mod 4 = 0 \<and> arena_end A < 2 ^ 64 \<and>
        base_a A \<in> set (block_map ?t)"
    using valid_arena [OF v] by (simp add: al bm)
  have c3: "\<forall>A \<in> set (arena_list ?t). \<forall>B \<in> set (arena_list ?t).
        A = B \<or> arena_end A \<le> base_a B \<or> arena_end B \<le> base_a A"
    using valid_arenas_disjoint [OF v] by (simp add: al)
  have c4: "\<forall>a \<in> set (block_map ?t).
        a mod 4 = 0 \<and> size_b (hdr ?t a) mod 4 = 0 \<and>
        (\<exists>A \<in> set (arena_list ?t).
           base_a A \<le> a \<and> block_end ?t a \<le> arena_end A \<and>
           (block_end ?t a = arena_end A \<or> block_end ?t a \<in> set (block_map ?t)))"
  proof
    fix a assume "a \<in> set (block_map ?t)"
    then consider (new) "a = ?nb" | (blk) "a = b" | (other) "a \<in> set (block_map s)" "a \<noteq> b"
      by (auto simp add: bm)
    then show "a mod 4 = 0 \<and> size_b (hdr ?t a) mod 4 = 0 \<and>
        (\<exists>A \<in> set (arena_list ?t).
           base_a A \<le> a \<and> block_end ?t a \<le> arena_end A \<and>
           (block_end ?t a = arena_end A \<or> block_end ?t a \<in> set (block_map ?t)))"
    proof cases
      case new
      have "(b + header_size) mod 4 = 0" using b4 header_size_mod4 by (rule mod4_add)
      then have n4: "?nb mod 4 = 0" using sz(1) by (rule mod4_add)
      have "(?old - sz) mod 4 = 0" using o4 sz(1) by (rule mod4_diff)
      then have s4: "(?old - sz - header_size) mod 4 = 0" using header_size_mod4 by (rule mod4_diff)
      have "base_a B \<le> ?nb" using Blo by simp
      with n4 s4 B Bhi Bnext show ?thesis
        unfolding new en hn al bm by auto
    next
      case blk
      have "?nb \<le> arena_end B" using lt Bhi by simp
      with b4 sz(1) B Blo show ?thesis
        unfolding blk eb hb al bm by auto
    next
      case other
      from valid_block [OF v other(1)] show ?thesis
        unfolding eo [OF other] ho [OF other] al bm by auto
    qed
  qed
  have c5: "\<forall>a \<in> set (block_map ?t). \<forall>c \<in> set (block_map ?t).
        a = c \<or> block_end ?t a \<le> c \<or> block_end ?t c \<le> a"
  proof (intro ballI)
    fix a c assume "a \<in> set (block_map ?t)" "c \<in> set (block_map ?t)"
    then have a: "a = ?nb \<or> a = b \<or> a \<in> set (block_map s) \<and> a \<noteq> b"
      and c: "c = ?nb \<or> c = b \<or> c \<in> set (block_map s) \<and> c \<noteq> b"
      by (auto simp add: bm)
    have key: "\<And>x. x \<in> set (block_map s) \<Longrightarrow> x \<noteq> b \<Longrightarrow>
        block_end ?t x = block_end s x \<and> (block_end s x \<le> b \<or> block_end s b \<le> x)"
      using eo valid_blocks_disjoint [OF v _ b] by auto
    from a c show "a = c \<or> block_end ?t a \<le> c \<or> block_end ?t c \<le> a"
    proof (elim disjE conjE)
      assume "a \<in> set (block_map s)" "a \<noteq> b" "c \<in> set (block_map s)" "c \<noteq> b"
      with valid_blocks_disjoint [OF v, of a c] eo show ?thesis by simp
    next
      assume "a \<in> set (block_map s)" "a \<noteq> b" "c = b"
      with key [of a] lt show ?thesis by (auto simp add: eb)
    next
      assume "a \<in> set (block_map s)" "a \<noteq> b" "c = ?nb"
      with key [of a] show ?thesis by (auto simp add: en)
    next
      assume "c \<in> set (block_map s)" "c \<noteq> b" "a = b"
      with key [of c] lt show ?thesis by (auto simp add: eb)
    next
      assume "c \<in> set (block_map s)" "c \<noteq> b" "a = ?nb"
      with key [of c] show ?thesis by (auto simp add: en)
    qed (simp_all add: eb en)
  qed
  from c1 c2 c3 c4 c5 show ?thesis unfolding valid_state_def by (intro conjI)
qed

lemma valid_placed:
  assumes "valid_state s'" and "placed s' sz r" and "sz mod 4 = 0"
  shows "valid_state (snd r)"
proof -
  from assms(2) obtain b where b: "b \<in> set (block_map s')" and fit: "sz \<le> size_b (hdr s' b)"
    and r: "r = (b + header_size, take_block b sz s')"
    unfolding placed_def by blast
  from valid_split [OF assms(1) b assms(3) fit] r show ?thesis by simp
qed

lemma valid_mem_alloc:
  assumes v: "valid_state s" and f: "fresh_region os sz s"
  shows "valid_state (snd (mem_alloc sz os s))"
proof -
  have n: "fst (mem_alloc sz os s) = 0 \<Longrightarrow> valid_state (snd (mem_alloc sz os s))"
  proof -
    assume z: "fst (mem_alloc sz os s) = 0"
    show ?thesis
    proof (cases "sz = 0 \<or> fst (try_arenas (arena_list s) (align_mem_size sz) s) \<noteq> 0 \<or> os = 0")
      case True
      with z v show ?thesis by (auto simp add: mem_alloc_eq split: if_splits)
    next
      case False
      then have e: "mem_alloc sz os s =
          scan_blocks os (add_sz os (arena_request sz)) (align_mem_size sz) (with_arena os sz s)"
        by (simp add: mem_alloc_eq)
      from z have "snd (mem_alloc sz os s) = with_arena os sz s"
        unfolding e by (rule scan_blocks_null)
      with valid_with_arena [OF v f] False show ?thesis by simp
    qed
  qed
  from mem_alloc_cases [OF v f] show ?thesis
  proof
    assume "fst (mem_alloc sz os s) = 0"
    then show ?thesis by (rule n)
  next
    assume "\<exists>s'. (s' = s \<or> os \<noteq> 0 \<and> s' = with_arena os sz s) \<and> valid_state s' \<and>
        placed s' (align_mem_size sz) (mem_alloc sz os s)"
    then obtain s' where "valid_state s'" "placed s' (align_mem_size sz) (mem_alloc sz os s)"
      by blast
    then show ?thesis by (rule valid_placed) simp
  qed
qed

lemma detached_region_fresh: "detached_region os sz s \<Longrightarrow> fresh_region os sz s"
  by (auto simp add: detached_region_def fresh_region_def)

text \<open>
  When no arena ends where another begins, the successor a merge absorbs lies in the arena
  of the absorbing block.
\<close>

lemma mergeable_same_arena:
  assumes v: "valid_state s" and d: "detached s" and b: "block \<in> set (block_map s)"
    and m: "block_end s block \<in> set (block_map s)"
    and B: "B \<in> set (arena_list s)" and lo: "base_a B \<le> block" and hi: "block < arena_end B"
  shows "block_end s block < arena_end B"
proof (rule ccontr)
  assume "\<not> block_end s block < arena_end B"
  with valid_block_in_arena(1) [OF v B b lo hi] have e: "block_end s block = arena_end B" by simp
  from valid_block [OF v m] obtain C where C: "C \<in> set (arena_list s)"
    and c1: "base_a C \<le> block_end s block"
    and c2: "block_end s (block_end s block) \<le> arena_end C"
    by (elim conjE bexE)
  have c3: "block_end s block < arena_end C"
    using c2 block_end_gt [of "block_end s block" s] by simp
  with e have "B \<noteq> C" by auto
  with d B C have ne: "arena_end B \<noteq> base_a C" by (auto simp add: detached_def)
  from valid_arenas_disjoint [OF v B C] \<open>B \<noteq> C\<close>
  have "arena_end B \<le> base_a C \<or> arena_end C \<le> base_a B" by simp
  then show False
  proof
    assume "arena_end B \<le> base_a C"
    with c1 e ne show False by simp
  next
    assume "arena_end C \<le> base_a B"
    with lo c3 block_end_gt [of block s] show False by simp
  qed
qed

lemma valid_absorb:
  assumes v: "valid_state s" and d: "detached s" and b: "block \<in> set (block_map s)"
    and m: "mergeable s block"
  shows "valid_state (absorb block s)"
proof -
  let ?t = "absorb block s"
  let ?nb = "block_end s block"
  have nb_def: "?nb = block + header_size + size_b (hdr s block)" by (simp add: block_end_def)
  from m have nb: "?nb \<in> set (block_map s)" by (simp add: mergeable_def block_end_def)
  have ne: "?nb \<noteq> block" using block_end_gt [of block s] by simp
  from valid_block [OF v b] obtain B where b4: "block mod 4 = 0"
    and s4: "size_b (hdr s block) mod 4 = 0"
    and B: "B \<in> set (arena_list s)" and Blo: "base_a B \<le> block"
    and Bhi: "block_end s block \<le> arena_end B"
    by (elim conjE bexE)
  have hi: "block < arena_end B" using Bhi block_end_gt [of block s] by simp
  have inB: "?nb < arena_end B" by (rule mergeable_same_arena [OF v d b nb B Blo hi])
  have nlo: "base_a B \<le> ?nb" using Blo block_end_gt [of block s] by simp
  note nB = valid_block_in_arena [OF v B nb nlo inB]
  have n4: "size_b (hdr s ?nb) mod 4 = 0" using valid_block [OF v nb] by simp
  have "block_end s ?nb < 2 ^ 64" by (rule valid_block_bounds(2) [OF v nb])
  then have nowrap: "size_b (hdr s block) + (header_size + size_b (hdr s ?nb)) < 2 ^ 64"
    by (simp add: block_end_def)
  then have "add_sz header_size (size_b (hdr s ?nb)) = header_size + size_b (hdr s ?nb)"
    by (simp add: add_sz_def)
  with nowrap have sum: "add_sz (size_b (hdr s block)) (add_sz header_size (size_b (hdr s ?nb))) =
      size_b (hdr s block) + (header_size + size_b (hdr s ?nb))"
    by (simp add: add_sz_def)
  have bm: "block_map ?t = removeAll ?nb (block_map s)" by (simp add: absorb_fields nb_def)
  have al: "arena_list ?t = arena_list s" by (simp add: absorb_fields)
  have hb: "size_b (hdr ?t block) = size_b (hdr s block) + (header_size + size_b (hdr s ?nb))"
    using sum by (simp add: absorb_def Let_def nb_def)
  have ho: "\<And>a. a \<noteq> block \<Longrightarrow> hdr ?t a = hdr s a" by (simp add: absorb_fields)
  have eb: "block_end ?t block = block_end s ?nb" by (simp add: block_end_def hb)
  have eo: "\<And>a. a \<noteq> block \<Longrightarrow> block_end ?t a = block_end s a" by (simp add: block_end_def ho)
  have mem: "\<And>a. a \<in> set (block_map ?t) \<longleftrightarrow> a \<in> set (block_map s) \<and> a \<noteq> ?nb"
    by (auto simp add: bm)
  \<comment> \<open>no other block ends where the absorbed block begins\<close>
  have pred: "\<And>a. a \<in> set (block_map s) \<Longrightarrow> a \<noteq> block \<Longrightarrow> block_end s a \<noteq> ?nb"
  proof
    fix a assume a: "a \<in> set (block_map s)" "a \<noteq> block" and e: "block_end s a = ?nb"
    from valid_blocks_disjoint [OF v a(1) b] a(2)
    have "block_end s a \<le> block \<or> block_end s block \<le> a" by simp
    with e block_end_gt [of block s] block_end_gt [of a s] show False by simp
  qed
  have c1: "distinct (block_map ?t)"
    unfolding bm using valid_distinct [OF v] by (rule distinct_removeAll)
  have c2: "\<forall>A \<in> set (arena_list ?t).
        0 < base_a A \<and> base_a A mod 4 = 0 \<and> arena_end A < 2 ^ 64 \<and>
        base_a A \<in> set (block_map ?t)"
  proof
    fix A assume "A \<in> set (arena_list ?t)"
    then have A: "A \<in> set (arena_list s)" by (simp add: al)
    have "base_a A \<noteq> ?nb"
    proof
      assume e: "base_a A = ?nb"
      have "base_a B < ?nb" using Blo block_end_gt [of block s] by simp
      with e have "A \<noteq> B" by auto
      with valid_arenas_disjoint [OF v A B]
      have "arena_end A \<le> base_a B \<or> arena_end B \<le> base_a A" by simp
      moreover have "base_a A \<le> arena_end A" by (simp add: arena_end_def)
      ultimately show False using e inB \<open>base_a B < ?nb\<close> by simp
    qed
    with valid_arena [OF v A] show "0 < base_a A \<and> base_a A mod 4 = 0 \<and> arena_end A < 2 ^ 64 \<and>
        base_a A \<in> set (block_map ?t)"
      by (simp add: mem)
  qed
  have c3: "\<forall>A \<in> set (arena_list ?t). \<forall>B \<in> set (arena_list ?t).
        A = B \<or> arena_end A \<le> base_a B \<or> arena_end B \<le> base_a A"
    using valid_arenas_disjoint [OF v] by (simp add: al)
  have c4: "\<forall>a \<in> set (block_map ?t).
        a mod 4 = 0 \<and> size_b (hdr ?t a) mod 4 = 0 \<and>
        (\<exists>A \<in> set (arena_list ?t).
           base_a A \<le> a \<and> block_end ?t a \<le> arena_end A \<and>
           (block_end ?t a = arena_end A \<or> block_end ?t a \<in> set (block_map ?t)))"
  proof
    fix a assume "a \<in> set (block_map ?t)"
    then have a: "a \<in> set (block_map s)" "a \<noteq> ?nb" by (simp_all add: mem)
    show "a mod 4 = 0 \<and> size_b (hdr ?t a) mod 4 = 0 \<and>
        (\<exists>A \<in> set (arena_list ?t).
           base_a A \<le> a \<and> block_end ?t a \<le> arena_end A \<and>
           (block_end ?t a = arena_end A \<or> block_end ?t a \<in> set (block_map ?t)))"
    proof (cases "a = block")
      case True
      have "(header_size + size_b (hdr s ?nb)) mod 4 = 0" using header_size_mod4 n4 by (rule mod4_add)
      with s4 have "(size_b (hdr s block) + (header_size + size_b (hdr s ?nb))) mod 4 = 0"
        by (rule mod4_add)
      moreover have "block_end s ?nb \<noteq> ?nb" using block_end_gt [of ?nb s] by simp
      ultimately show ?thesis
        using b4 B Blo nB unfolding True eb hb al by (auto simp add: mem)
    next
      case False
      from valid_block [OF v a(1)] pred [OF a(1) False] show ?thesis
        unfolding eo [OF False] ho [OF False] al by (auto simp add: mem)
    qed
  qed
  have c5: "\<forall>a \<in> set (block_map ?t). \<forall>c \<in> set (block_map ?t).
        a = c \<or> block_end ?t a \<le> c \<or> block_end ?t c \<le> a"
  proof (intro ballI)
    fix a c assume "a \<in> set (block_map ?t)" "c \<in> set (block_map ?t)"
    then have a: "a \<in> set (block_map s)" "a \<noteq> ?nb" and c: "c \<in> set (block_map s)" "c \<noteq> ?nb"
      by (simp_all add: mem)
    have key: "\<And>x. x \<in> set (block_map s) \<Longrightarrow> x \<noteq> ?nb \<Longrightarrow> x \<noteq> block \<Longrightarrow>
        block_end s ?nb \<le> x \<or> block_end s x \<le> block"
    proof -
      fix x assume x: "x \<in> set (block_map s)" "x \<noteq> ?nb" "x \<noteq> block"
      from valid_blocks_disjoint [OF v b x(1)] x(3)
      have 1: "?nb \<le> x \<or> block_end s x \<le> block" by auto
      from valid_blocks_disjoint [OF v nb x(1)] x(2)
      have 2: "block_end s ?nb \<le> x \<or> block_end s x \<le> ?nb" by auto
      from 1 2 block_end_gt [of x s] show "block_end s ?nb \<le> x \<or> block_end s x \<le> block"
        by auto
    qed
    show "a = c \<or> block_end ?t a \<le> c \<or> block_end ?t c \<le> a"
    proof (cases "a = block")
      case ab: True
      show ?thesis
      proof (cases "c = block")
        case True with ab show ?thesis by simp
      next
        case False
        with key [OF c] show ?thesis by (auto simp add: ab eb eo)
      qed
    next
      case ab: False
      show ?thesis
      proof (cases "c = block")
        case True
        with key [OF a ab] show ?thesis by (auto simp add: eb eo ab)
      next
        case False
        with valid_blocks_disjoint [OF v a(1) c(1)] ab show ?thesis by (simp add: eo)
      qed
    qed
  qed
  from c1 c2 c3 c4 c5 show ?thesis unfolding valid_state_def by (intro conjI)
qed

lemma valid_merge_loop:
  "valid_state s \<Longrightarrow> detached s \<Longrightarrow> set todo \<subseteq> set (block_map s) \<Longrightarrow>
   valid_state (merge_loop todo s)"
proof (induction todo s rule: merge_loop_cases)
  case (Nil s)
  then show ?case by simp
next
  case (Merge block rest s)
  let ?nb = "block + header_size + size_b (hdr s block)"
  from Merge.prems have b: "block \<in> set (block_map s)" by simp
  have v: "valid_state (absorb block s)"
    using Merge.prems(1,2) b Merge.hyps by (rule valid_absorb)
  have d: "detached (absorb block s)"
    using Merge.prems(2) by (simp add: detached_def absorb_fields)
  have "set (block # removeAll ?nb rest) \<subseteq> set (block_map (absorb block s))"
    using Merge.prems(3) by (auto simp add: absorb_fields)
  from Merge.IH [OF v d this] show ?case by (simp add: merge_loop_merge [OF Merge.hyps])
next
  case (Skip block rest s)
  then show ?case by (simp add: merge_loop_skip)
qed

lemma valid_mem_free:
  assumes "valid_state s" and "detached s"
  shows "valid_state (mem_free ptr s)"
proof (cases "ptr = 0 \<or> sub_sz ptr header_size \<notin> set (block_map s)")
  case True
  with assms(1) show ?thesis by (auto simp add: mem_free_def Let_def)
next
  case False
  let ?b = "sub_sz ptr header_size"
  let ?s = "s\<lparr>hdr := (hdr s)(?b := (hdr s ?b)\<lparr>free_b := True\<rparr>),
              mem := store_flag (?b + 8) True (mem s)\<rparr>"
  have "valid_state ?s = valid_state s" by (rule valid_state_cong) simp_all
  with assms(1) have v: "valid_state ?s" by simp
  have d: "detached ?s" using assms(2) by (simp add: detached_def)
  have "valid_state (merge_loop (block_map ?s) ?s)" using v d by (rule valid_merge_loop) simp
  with False show ?thesis by (simp add: mem_free_def merge_free_blocks_def Let_def)
qed

lemma take_block_arena_list: "arena_list (take_block b sz s) = arena_list s"
  by (simp add: take_block_def split_mem_block_def Let_def)

lemma scan_blocks_arena_list: "arena_list (snd (scan_blocks base lim sz s)) = arena_list s"
proof (induction base lim sz s rule: scan_blocks.induct)
  case (1 base lim sz s)
  show ?case
  proof (cases "base < lim \<and> \<not> (free_b (hdr s base) \<and> sz \<le> size_b (hdr s base))")
    case True
    with "1.IH" [OF _ refl] show ?thesis by (simp add: scan_blocks_skip)
  next
    case False
    then show ?thesis by (auto simp add: take_block_eval [of base] take_block_arena_list)
  qed
qed

lemma try_arenas_arena_list: "arena_list (snd (try_arenas arenas sz s)) = arena_list s"
proof (induction arenas)
  case Nil
  show ?case by simp
next
  case (Cons A rest)
  show ?case
  proof (cases "fst (allocate_memory_block A sz s) = 0")
    case True
    then have "snd (allocate_memory_block A sz s) = s" by (rule allocate_memory_block_null)
    with True Cons show ?thesis by (simp add: split_beta)
  next
    case False
    then show ?thesis
      by (simp add: split_beta allocate_memory_block_def Let_def scan_blocks_arena_list)
  qed
qed

lemma mem_alloc_arena_list:
  "arena_list (snd (mem_alloc sz os s)) = arena_list s \<or>
   os \<noteq> 0 \<and> arena_list (snd (mem_alloc sz os s)) =
     \<lparr>size_a = arena_request sz, base_a = os\<rparr> # arena_list s"
  by (simp add: mem_alloc_eq try_arenas_arena_list scan_blocks_arena_list with_arena_fields)

lemma detached_mem_alloc:
  assumes d: "detached s" and r: "detached_region os sz s"
  shows "detached (snd (mem_alloc sz os s))"
proof -
  let ?N = "\<lparr>size_a = arena_request sz, base_a = os\<rparr>"
  from mem_alloc_arena_list [of sz os s] show ?thesis
  proof
    assume "arena_list (snd (mem_alloc sz os s)) = arena_list s"
    with d show ?thesis by (simp add: detached_def)
  next
    assume a: "os \<noteq> 0 \<and> arena_list (snd (mem_alloc sz os s)) = ?N # arena_list s"
    with r have far: "\<And>A. A \<in> set (arena_list s) \<Longrightarrow>
        arena_end A < os \<or> os + arena_request sz < base_a A"
      by (simp add: detached_region_def)
    have le: "\<And>A. base_a A \<le> arena_end A" by (simp add: arena_end_def)
    have 1: "\<And>A. A \<in> set (arena_list s) \<Longrightarrow> arena_end A \<noteq> os"
    proof -
      fix A assume "A \<in> set (arena_list s)"
      from far [OF this] le [of A] show "arena_end A \<noteq> os" by linarith
    qed
    have 2: "\<And>A. A \<in> set (arena_list s) \<Longrightarrow> os + arena_request sz \<noteq> base_a A"
    proof -
      fix A assume "A \<in> set (arena_list s)"
      from far [OF this] le [of A] show "os + arena_request sz \<noteq> base_a A" by linarith
    qed
    from a d 1 2 show ?thesis
      by (auto simp add: detached_def arena_end_def)
  qed
qed

lemma mem_free_arena_list: "arena_list (mem_free ptr s) = arena_list s"
  by (simp add: mem_free_def merge_free_blocks_def Let_def merge_loop_frame)

lemma detached_mem_free: "detached s \<Longrightarrow> detached (mem_free ptr s)"
  by (simp add: detached_def mem_free_arena_list)

lemma valid_split_mem_block:
  assumes v: "valid_state s" and b: "b \<in> set (block_map s)"
    and sz: "sz mod 4 = 0" "sz \<le> size_b (hdr s b)"
  shows "valid_state (split_mem_block b sz s)"
proof -
  have "valid_state (take_block b sz s) = valid_state (split_mem_block b sz s)"
    by (rule valid_state_cong) (simp_all add: take_block_def Let_def)
  with valid_split [OF v b sz] show ?thesis by simp
qed

lemma split_mem_block_arena_list: "arena_list (split_mem_block b sz s) = arena_list s"
  by (simp add: split_mem_block_def Let_def)

text \<open>The state \<open>mem_realloc\<close> returns, case by case.\<close>

lemma mem_realloc_state:
  "snd (mem_realloc ptr sz os s) =
     (if ptr = 0 then snd (mem_alloc sz os s)
      else if sub_sz ptr header_size \<notin> set (block_map s) then s
      else if align_mem_size sz \<le> size_b (hdr s (sub_sz ptr header_size))
        then split_mem_block (sub_sz ptr header_size) (align_mem_size sz) s
      else if fst (mem_alloc (align_mem_size sz) os s) = 0
        then snd (mem_alloc (align_mem_size sz) os s)
      else mem_free ptr
        (memcpy (fst (mem_alloc (align_mem_size sz) os s)) ptr
           (size_b (hdr (snd (mem_alloc (align_mem_size sz) os s)) (sub_sz ptr header_size)))
           (snd (mem_alloc (align_mem_size sz) os s))))"
  by (simp add: mem_realloc_def Let_def split_beta)

lemma valid_mem_realloc:
  assumes v: "valid_state s" and d: "detached s" and r: "detached_region os sz s"
  shows "valid_state (snd (mem_realloc ptr sz os s)) \<and> detached (snd (mem_realloc ptr sz os s))"
proof -
  let ?sz = "align_mem_size sz"
  let ?a = "mem_alloc ?sz os s"
  have r': "detached_region os ?sz s" using r by (simp add: detached_region_def)
  note f = detached_region_fresh [OF r] and f' = detached_region_fresh [OF r']
  have va: "valid_state (snd ?a)" using v f' by (rule valid_mem_alloc)
  have da: "detached (snd ?a)" using d r' by (rule detached_mem_alloc)
  let ?c = "memcpy (fst ?a) ptr (size_b (hdr (snd ?a) (sub_sz ptr header_size))) (snd ?a)"
  have "valid_state ?c = valid_state (snd ?a)"
    by (rule valid_state_cong) (simp_all add: memcpy_fields)
  with va have vc: "valid_state ?c" by simp
  have dc: "detached ?c" using da by (simp add: detached_def memcpy_fields)
  have vf: "valid_state (mem_free ptr ?c)" using vc dc by (rule valid_mem_free)
  have df: "detached (mem_free ptr ?c)" using dc by (rule detached_mem_free)
  have vs: "sub_sz ptr header_size \<in> set (block_map s) \<Longrightarrow>
      ?sz \<le> size_b (hdr s (sub_sz ptr header_size)) \<Longrightarrow>
      valid_state (split_mem_block (sub_sz ptr header_size) ?sz s)"
    using v by (rule valid_split_mem_block) simp_all
  have ds: "detached (split_mem_block (sub_sz ptr header_size) ?sz s)"
    using d by (simp add: detached_def split_mem_block_arena_list)
  show ?thesis
    unfolding mem_realloc_state
    using v d valid_mem_alloc [OF v f] detached_mem_alloc [OF d r] va da vf df vs ds
    by simp
qed

section \<open>The blocks of an arena tile it\<close>

lemma arena_blocks_tile:
  "valid_state s \<Longrightarrow> A \<in> set (arena_list s) \<Longrightarrow> lim = arena_end A \<Longrightarrow>
   base = lim \<or> base \<in> set (block_map s) \<and> base_a A \<le> base \<and> base < lim \<Longrightarrow>
   set (arena_blocks base lim s) = {a \<in> set (block_map s). base \<le> a \<and> a < lim} \<and>
   distinct (arena_blocks base lim s) \<and>
   sum_list (map (\<lambda>a. header_size + size_b (hdr s a)) (arena_blocks base lim s)) = lim - base"
proof (induction base lim s rule: arena_blocks.induct)
  case (1 base lim s)
  note v = "1.prems"(1) and A = "1.prems"(2) and lim = "1.prems"(3)
  show ?case
  proof (cases "base < lim")
    case False
    with "1.prems"(4) have "base = lim" by auto
    moreover have "arena_blocks lim lim s = []" by (simp add: arena_blocks.simps [of lim])
    ultimately show ?thesis by simp
  next
    case True
    with "1.prems"(4) have b: "base \<in> set (block_map s)" and lo: "base_a A \<le> base" by auto
    let ?next = "base + (header_size + size_b (hdr s base))"
    have e: "?next = block_end s base" by (simp add: block_end_def)
    from True lim have hi: "base < arena_end A" by simp
    note in_arena = valid_block_in_arena [OF v A b lo hi]
    have le: "?next \<le> lim" using in_arena(1) by (simp add: e lim)
    have "?next = lim \<or> ?next \<in> set (block_map s) \<and> base_a A \<le> ?next \<and> ?next < lim"
      using in_arena lo by (auto simp add: e lim block_end_def)
    from "1.IH" [OF True v A lim this]
    have s: "set (arena_blocks ?next lim s) = {a \<in> set (block_map s). ?next \<le> a \<and> a < lim}"
      and d: "distinct (arena_blocks ?next lim s)"
      and t: "sum_list (map (\<lambda>a. header_size + size_b (hdr s a)) (arena_blocks ?next lim s)) =
          lim - ?next"
      by simp_all
    have only: "\<And>a. a \<in> set (block_map s) \<Longrightarrow> base \<le> a \<Longrightarrow> a \<noteq> base \<Longrightarrow> ?next \<le> a"
    proof -
      fix a assume a: "a \<in> set (block_map s)" "base \<le> a" "a \<noteq> base"
      from valid_blocks_disjoint [OF v a(1) b] a(3)
      have "block_end s a \<le> base \<or> block_end s base \<le> a" by simp
      with a(2) block_end_gt [of a s] show "?next \<le> a" by (simp add: e)
    qed
    have unf: "arena_blocks base lim s = base # arena_blocks ?next lim s"
      using True by (simp add: arena_blocks.simps [of base])
    have "set (arena_blocks base lim s) = {a \<in> set (block_map s). base \<le> a \<and> a < lim}"
      unfolding unf using b True only le by (auto simp add: s)
    moreover have "distinct (arena_blocks base lim s)"
      unfolding unf using d by (simp add: s)
    moreover have "sum_list (map (\<lambda>a. header_size + size_b (hdr s a)) (arena_blocks base lim s)) =
        lim - base"
      unfolding unf using t le by simp
    ultimately show ?thesis by (intro conjI)
  qed
qed

lemma valid_partition:
  assumes v: "valid_state s" and A: "A \<in> set (arena_list s)"
  shows "arena_footprint s A = size_a A"
proof -
  let ?f = "\<lambda>a. header_size + size_b (hdr s a)"
  let ?L = "arena_blocks (base_a A) (arena_end A) s"
  let ?F = "filter (\<lambda>a. base_a A \<le> a \<and> a < base_a A + size_a A) (block_map s)"
  from valid_arena [OF v A] have base: "base_a A \<in> set (block_map s)" by simp
  have "base_a A = arena_end A \<or>
      base_a A \<in> set (block_map s) \<and> base_a A \<le> base_a A \<and> base_a A < arena_end A"
    using base by (auto simp add: arena_end_def)
  from arena_blocks_tile [OF v A refl this]
  have s: "set ?L = {a \<in> set (block_map s). base_a A \<le> a \<and> a < arena_end A}"
    and d: "distinct ?L" and t: "sum_list (map ?f ?L) = arena_end A - base_a A"
    by simp_all
  have "set ?F = {a \<in> set (block_map s). base_a A \<le> a \<and> a < arena_end A}"
    by (auto simp add: arena_end_def)
  then have "set ?F = set ?L" by (simp only: s)
  moreover have "distinct ?F" using valid_distinct [OF v] by simp
  ultimately have "sum_list (map ?f ?F) = sum_list (map ?f ?L)"
    using d by (simp add: sum_list_distinct_conv_sum_set)
  with t show ?thesis by (simp add: arena_footprint_def arena_end_def)
qed

section \<open>Reachable states\<close>

lemma init_state_valid: "valid_state init_state \<and> detached init_state"
  by (simp add: valid_state_def detached_def init_state_def)

lemma reachable_valid: "reachable s \<Longrightarrow> valid_state s \<and> detached s"
proof (induction rule: reachable.induct)
  case reachable_init
  show ?case by (rule init_state_valid)
next
  case (reachable_alloc s os sz)
  then show ?case
    by (simp add: valid_mem_alloc detached_mem_alloc detached_region_fresh)
next
  case (reachable_free s ptr)
  then show ?case by (simp add: valid_mem_free detached_mem_free)
next
  case (reachable_realloc s os sz ptr)
  then show ?case by (simp add: valid_mem_realloc)
next
  case (reachable_store s p bs)
  have "valid_state (store_bytes p bs s) = valid_state s"
    by (rule valid_state_cong) (simp_all add: store_bytes_def)
  with reachable_store.IH show ?case by (simp add: detached_def store_bytes_def)
next
  case (reachable_rehash s bm)
  have "block_end (s\<lparr>block_map := bm\<rparr>) = block_end s" by (simp add: block_end_def fun_eq_iff)
  with reachable_rehash show ?case by (simp add: valid_state_def detached_def)
qed

text \<open>
  As long as the operating system never hands out a region that touches an arena, every
  arena is tiled exactly by its indexed blocks after every sequence of calls.
\<close>

lemma reachable_partition:
  "reachable s \<Longrightarrow> A \<in> set (arena_list s) \<Longrightarrow> arena_footprint s A = size_a A"
  using reachable_valid valid_partition by blast

section \<open>Relocation in a well-formed state\<close>

lemma merge_loop_mem:
  "set todo \<subseteq> set (block_map s) \<Longrightarrow> \<forall>a \<in> set (block_map s). x < a \<or> a + 11 \<le> x \<Longrightarrow>
   mem (merge_loop todo s) x = mem s x"
proof (induction todo s rule: merge_loop_cases)
  case (Nil s)
  show ?case by simp
next
  case (Merge block rest s)
  let ?nb = "block + header_size + size_b (hdr s block)"
  from Merge.prems have b: "block \<in> set (block_map s)" by simp
  with Merge.prems(2) have "x < block \<or> block + 11 \<le> x" by blast
  then have m: "mem (absorb block s) x = mem s x" by (rule absorb_fields(1))
  have "set (block # removeAll ?nb rest) \<subseteq> set (block_map (absorb block s))"
    using Merge.prems(1) by (auto simp add: absorb_fields)
  moreover have "\<forall>a \<in> set (block_map (absorb block s)). x < a \<or> a + 11 \<le> x"
    using Merge.prems(2) by (simp add: absorb_fields)
  ultimately have "mem (merge_loop (block # removeAll ?nb rest) (absorb block s)) x =
      mem (absorb block s) x"
    by (rule Merge.IH)
  with m show ?case by (simp add: merge_loop_merge [OF Merge.hyps])
next
  case (Skip block rest s)
  then show ?case by (simp add: merge_loop_skip)
qed

lemma mem_free_mem:
  assumes "\<forall>a \<in> set (block_map s). x < a \<or> a + 11 \<le> x"
  shows "mem (mem_free ptr s) x = mem s x"
proof (cases "ptr = 0 \<or> sub_sz ptr header_size \<notin> set (block_map s)")
  case True
  then show ?thesis by (auto simp add: mem_free_def Let_def)
next
  case False
  let ?b = "sub_sz ptr header_size"
  let ?s = "s\<lparr>hdr := (hdr s)(?b := (hdr s ?b)\<lparr>free_b := True\<rparr>),
              mem := store_flag (?b + 8) True (mem s)\<rparr>"
  from False assms have "x < ?b \<or> ?b + 11 \<le> x" by blast
  then have "mem ?s x = mem s x" by (auto simp add: store_flag_def)
  moreover have "mem (merge_loop (block_map ?s) ?s) x = mem ?s x"
    using assms by (intro merge_loop_mem) simp_all
  ultimately show ?thesis
    using False by (simp add: mem_free_def merge_free_blocks_def Let_def)
qed

lemma realloc_relocates_valid:
  assumes "valid_state s" and "fresh_region os sz s" and "sz < 2 ^ 64"
    and "block \<in> set (block_map s)" and "size_b (hdr s block) < align_mem_size sz"
    and "mem_alloc (align_mem_size sz) os s = (q, s1)" and "q \<noteq> 0"
    and "mem_realloc (block + header_size) sz os s = (r, t)"
  shows "r = q \<and>
     t = mem_free (block + header_size)
           (memcpy q (block + header_size) (size_b (hdr s block)) s1) \<and>
     min (size_b (hdr s block)) sz = size_b (hdr s block) \<and>
     (q + size_b (hdr s block) \<le> block + header_size \<or>
      block + header_size + size_b (hdr s block) \<le> q) \<and>
     (\<forall>k \<le> size_b (hdr s block). load_bytes q k t = load_bytes (block + header_size) k s) \<and>
     free_b (hdr t block) \<and>
     q - header_size \<in> set (block_map t) \<and> \<not> free_b (hdr t (q - header_size)) \<and>
     sz \<le> size_b (hdr t (q - header_size))"
proof -
  let ?old = "size_b (hdr s block)"
  let ?sz = "align_mem_size sz"
  let ?p = "block + header_size"
  note v = assms(1)
  have f: "fresh_region os ?sz s" using assms(2) by (simp add: fresh_region_def)
  note blk = assms(4)
  have plt: "?p < 2 ^ 64"
    using valid_block_bounds(2) [OF v blk] block_end_ge [of block s] by simp
  have sub: "sub_sz ?p header_size = block" using plt by (rule sub_sz_header)
  \<comment> \<open>the request does not wrap, so the aligned size covers it\<close>
  have nowrap: "sz + 3 < 2 ^ 64"
  proof (rule ccontr)
    assume "\<not> sz + 3 < 2 ^ 64"
    with assms(3) have "(sz + 3) mod 2 ^ 64 = sz + 3 - 2 ^ 64" "sz + 3 - 2 ^ 64 < 3"
      by (simp_all add: mod_if)
    then have "?sz = 0" by (simp add: align_mem_size_eq)
    with assms(5) show False by simp
  qed
  have ge: "sz \<le> ?sz" using nowrap by (rule align_mem_size_ge)
  have old4: "?old mod 4 = 0" using valid_block [OF v blk] by simp
  have "?old + 4 \<le> ?sz"
  proof -
    have "?sz mod 4 = 0" by simp
    with old4 assms(5) show ?thesis by presburger
  qed
  moreover have "?sz \<le> sz + 3" using nowrap by (rule align_mem_size_le)
  ultimately have min: "min ?old sz = ?old" by simp
  \<comment> \<open>where the new block comes from\<close>
  from mem_alloc_cases [OF v f] assms(6,7)
  obtain s' where s': "s' = s \<or> os \<noteq> 0 \<and> s' = with_arena os ?sz s" and v': "valid_state s'"
    and pl: "placed s' ?sz (q, s1)"
    by auto
  from pl obtain b where b: "b \<in> set (block_map s')" and fit: "?sz \<le> size_b (hdr s' b)"
    and q: "q = b + header_size" and s1: "s1 = take_block b ?sz s'"
    unfolding placed_def by auto
  have sz4: "?sz mod 4 = 0" by simp
  have ne_os: "os \<noteq> 0 \<Longrightarrow> block \<noteq> os"
    using fresh_region_not_indexed [OF v f] blk by blast
  have hs': "hdr s' block = hdr s block" using s' ne_os by (auto simp add: with_arena_fields)
  have blk': "block \<in> set (block_map s')" using s' blk by (auto simp add: with_arena_fields)
  from fit assms(5) hs' have bne: "b \<noteq> block" by auto
  have h1: "hdr s1 block = hdr s block"
    using take_block_others [OF v' b sz4 fit blk'] bne hs' by (simp add: s1)
  note taken = take_block_taken [OF v' b sz4 fit, folded s1]
  have v1: "valid_state s1" unfolding s1 using v' b sz4 fit by (rule valid_split)
  have be': "block_end s' block = block_end s block" by (simp add: block_end_def hs')
  \<comment> \<open>the allocation leaves the old payload as it was\<close>
  have dis: "block_end s' b \<le> block \<or> block_end s' block \<le> b"
    using valid_blocks_disjoint [OF v' b blk'] bne by simp
  have m1: "\<And>x. block \<le> x \<Longrightarrow> x < block_end s block \<Longrightarrow> mem s1 x = mem s x"
  proof -
    fix x assume x: "block \<le> x" "x < block_end s block"
    have "x < b \<or> block_end s' b \<le> x" using dis x block_end_gt [of b s'] by (auto simp add: be')
    then have 1: "mem s1 x = mem s' x" unfolding s1 by (rule take_block_taken(5) [OF v' b sz4 fit])
    have "mem s' x = mem s x"
    proof (cases "s' = s")
      case True
      then show ?thesis by simp
    next
      case False
      with s' have os: "os \<noteq> 0" and e: "s' = with_arena os ?sz s" by auto
      from fresh_region_blocks [OF v f os blk] arena_request_ge [of ?sz] x
      have "x < os \<or> os + 11 \<le> x" by (auto simp add: default_arena_size_def)
      then show ?thesis unfolding e by (rule with_arena_fields(3))
    qed
    with 1 show "mem s1 x = mem s x" by simp
  qed
  \<comment> \<open>the result of the call\<close>
  have res: "mem_realloc ?p sz os s = (q, mem_free ?p (memcpy q ?p ?old s1))"
    using blk assms(5,6,7) by (simp add: mem_realloc_def Let_def sub h1)
  from res assms(8) have "(r, t) = (q, mem_free ?p (memcpy q ?p ?old s1))" by simp
  then have r: "r = q" and t: "t = mem_free ?p (memcpy q ?p ?old s1)"
    by (simp_all only: prod.inject)
  \<comment> \<open>source and destination of the copy do not overlap\<close>
  have inb: "q + ?old \<le> block_end s' b" using fit assms(5) by (simp add: q block_end_def)
  have lap: "q + ?old \<le> ?p \<or> ?p + ?old \<le> q"
  proof -
    have "block_end s' block = ?p + ?old" by (simp add: block_end_def hs')
    with dis inb show ?thesis by (auto simp add: q)
  qed
  \<comment> \<open>the release writes header bytes only, none of them in the new payload\<close>
  have e1: "block_end s1 b \<le> block_end s' b"
    using taken(3) by (simp add: block_end_def)
  have e2: "q + ?old \<le> block_end s1 b"
    using taken(2) assms(5) by (simp add: q block_end_def)
  have away: "\<And>x. q \<le> x \<Longrightarrow> x < q + ?old \<Longrightarrow>
      \<forall>a \<in> set (block_map (memcpy q ?p ?old s1)). x < a \<or> a + 11 \<le> x"
  proof
    fix x a assume x: "q \<le> x" "x < q + ?old" and "a \<in> set (block_map (memcpy q ?p ?old s1))"
    then have a: "a \<in> set (block_map s1)" by (simp add: memcpy_fields)
    show "x < a \<or> a + 11 \<le> x"
    proof (cases "a = b")
      case True
      with x show ?thesis by (simp add: q header_size_def)
    next
      case False
      from valid_blocks_disjoint [OF v1 a taken(4)] False
      have "block_end s1 a \<le> b \<or> block_end s1 b \<le> a" by simp
      with x e2 block_end_ge [of a s1] show ?thesis by (auto simp add: q header_size_def)
    qed
  qed
  have mt: "\<And>x. q \<le> x \<Longrightarrow> x < q + ?old \<Longrightarrow> mem t x = mem s (?p + (x - q))"
  proof -
    fix x assume x: "q \<le> x" "x < q + ?old"
    have "mem t x = mem (memcpy q ?p ?old s1) x"
      unfolding t using away [OF x] by (rule mem_free_mem)
    also have "\<dots> = mem s1 (?p + (x - q))" using x by (simp add: memcpy_fields)
    also have "\<dots> = mem s (?p + (x - q))"
      using x by (intro m1) (simp_all add: block_end_def)
    finally show "mem t x = mem s (?p + (x - q))" .
  qed
  have bytes: "\<forall>k \<le> ?old. load_bytes q k t = load_bytes ?p k s"
    by (simp add: load_bytes_def mt)
  have rel: "free_b (hdr t block)"
    using mem_free_released [of ?p "memcpy q ?p ?old s1"] blk' taken(6)
      take_block_valid(1) [OF sz4 fit v' b]
    by (simp add: t sub memcpy_fields s1 [symmetric])
  have nf: "\<not> free_b (hdr (memcpy q ?p ?old s1) b)" using taken(1) by (simp add: memcpy_fields)
  have bsub: "b \<noteq> sub_sz ?p header_size" using bne by (simp add: sub)
  have "hdr t b = hdr s1 b" "b \<in> set (block_map t)"
    using mem_free_in_use [OF nf bsub] taken(4) by (simp_all add: t memcpy_fields)
  with taken(1,2) ge have new: "b \<in> set (block_map t)" "\<not> free_b (hdr t b)" "sz \<le> size_b (hdr t b)"
    by simp_all
  from r t min lap bytes rel new show ?thesis by (simp add: q)
qed

section \<open>Evaluation on concrete states\<close>

lemmas eval_defs = mem_alloc_def mem_free_def mem_realloc_def memcpy_def merge_free_blocks_def
  merge_loop.simps scan_blocks.simps allocate_memory_block_def split_mem_block_def
  create_new_arena_def align_mem_size_def add_sz_def sub_sz_def header_size_def
  default_arena_size_def init_state_def Let_def

lemmas adj_defs = adj_s5_def adj_s4_def adj_s3_def adj_s2_def adj_s1_def

lemmas store_defs = store_size_def store_flag_def size_byte_def

lemmas valid_defs = valid_state_def fresh_region_def block_end_def arena_end_def arena_request_def

lemmas copy_defs = copy_s2_def copy_s1_def store_bytes_def copy_pattern_def

lemma grow_s1_valid: "valid_state grow_s1"
  by (simp add: valid_defs grow_s1_def eval_defs)

text \<open>
  The example \<open>allocate(50)\<close>, fifty bytes written, \<open>reallocate(p, 200)\<close> in a
  well-formed state: the block moves to \<open>65620\<close> and the fifty bytes move with it.
\<close>

lemma realloc_relocates_example:
  "fst (mem_alloc 50 65536 init_state) = 65552 \<and>
   valid_state copy_s2 \<and> fresh_region 0 200 copy_s2 \<and> (200::nat) < 2 ^ 64 \<and>
   65536 \<in> set (block_map copy_s2) \<and> size_b (hdr copy_s2 65536) = 52 \<and>
   size_b (hdr copy_s2 65536) < align_mem_size 200 \<and>
   mem_alloc (align_mem_size 200) 0 copy_s2 = (65620, copy_s3) \<and>
   mem_realloc (65536 + header_size) 200 0 copy_s2 = (65620, copy_s4) \<and>
   load_bytes (65536 + header_size) 50 copy_s2 = copy_pattern \<and>
   load_bytes 65620 50 copy_s4 = copy_pattern \<and>
   free_b (hdr copy_s4 65536) \<and> \<not> free_b (hdr copy_s4 (65620 - header_size)) \<and>
   200 \<le> size_b (hdr copy_s4 (65620 - header_size))"
proof -
  have p: "fst (mem_alloc 50 65536 init_state) = 65552" by (simp add: eval_defs)
  have v: "valid_state copy_s2" by (simp add: valid_defs copy_defs eval_defs)
  have f: "fresh_region 0 200 copy_s2" by (simp add: fresh_region_def)
  have n: "(200::nat) < 2 ^ 64" by simp
  have b: "65536 \<in> set (block_map copy_s2)" "size_b (hdr copy_s2 65536) = 52"
    "size_b (hdr copy_s2 65536) < align_mem_size 200"
    by (simp_all add: copy_defs eval_defs)
  have "fst (mem_alloc (align_mem_size 200) 0 copy_s2) = 65620"
    by (simp add: copy_defs eval_defs)
  then have a: "mem_alloc (align_mem_size 200) 0 copy_s2 = (65620, copy_s3)"
    by (simp add: prod_eq_iff copy_s3_def)
  have q: "(65620::nat) \<noteq> 0" by simp
  have e: "mem_realloc (65536 + header_size) 200 0 copy_s2 =
      (fst (mem_realloc (65536 + header_size) 200 0 copy_s2), copy_s4)"
    by (simp add: prod_eq_iff copy_s4_def header_size_def)
  note c = realloc_relocates_valid [OF v f n b(1,3) a q e]
  from c have r: "fst (mem_realloc (65536 + header_size) 200 0 copy_s2) = 65620"
    by (elim conjE)
  from c have "\<forall>k \<le> size_b (hdr copy_s2 65536).
      load_bytes 65620 k copy_s4 = load_bytes (65536 + header_size) k copy_s2"
    by (elim conjE)
  then have l: "load_bytes 65620 50 copy_s4 = load_bytes (65536 + header_size) 50 copy_s2"
    by (simp add: b(2))
  have "length copy_pattern = 50" by (simp add: copy_pattern_def)
  with load_store_bytes [of 65552 copy_pattern copy_s1]
  have o: "load_bytes (65536 + header_size) 50 copy_s2 = copy_pattern"
    by (simp add: copy_s2_def header_size_def)
  from c have g: "free_b (hdr copy_s4 65536)" "\<not> free_b (hdr copy_s4 (65620 - header_size))"
    "200 \<le> size_b (hdr copy_s4 (65620 - header_size))"
    by blast+
  from e r have e': "mem_realloc (65536 + header_size) 200 0 copy_s2 = (65620, copy_s4)"
    by simp
  from p v f n b a e' o l g show ?thesis by (simp only: l o simp_thms)
qed

section \<open>Claims\<close>

subsection \<open>C1\<close>

text \<open>
  Claim C1, evaluated where the code departs from it. In the same call sequence both arenas
  are tiled exactly before the second release; after it the blocks indexed in the first
  arena occupy \<open>131072\<close> bytes of its \<open>65536\<close>, and the second arena has no indexed block.
\<close>

theorem partition_broken_by_merge:
  "arena_list adj_s4 = [\<lparr>size_a = 65536, base_a = 131072\<rparr>, \<lparr>size_a = 65536, base_a = 65536\<rparr>] \<and>
   arena_footprint adj_s3 \<lparr>size_a = 65536, base_a = 65536\<rparr> = 65536 \<and>
   arena_footprint adj_s3 \<lparr>size_a = 65536, base_a = 131072\<rparr> = 65536 \<and>
   arena_footprint adj_s4 \<lparr>size_a = 65536, base_a = 65536\<rparr> = 131072 \<and>
   arena_footprint adj_s4 \<lparr>size_a = 65536, base_a = 131072\<rparr> = 0"
  by (simp add: arena_footprint_def adj_s4_def adj_s3_def adj_s2_def adj_s1_def eval_defs)

subsection \<open>C2\<close>

text \<open>
  Claim C2, amended. Let the state be well-formed and the answer of the operating system be
  \<open>NULL\<close> or a fresh region. For every \<open>n\<close> with \<open>0 < n\<close> and \<open>n + 3 < 2 ^ 64\<close>, if
  \<open>mem_alloc(n)\<close> returns a non-null pointer \<open>p\<close>, then \<open>p\<close> is 4-byte aligned, the header
  at \<open>p - sizeof(MemBlock)\<close> is indexed and marked in-use, its payload size is at least
  \<open>n\<close>, and the payload \<open>[p, p + size)\<close> is disjoint from the payload of every other
  indexed block that is marked in-use.
\<close>

theorem allocate_sound:
  assumes "valid_state s" and "fresh_region os n s" and "0 < n" and "n + 3 < 2 ^ 64"
    and "mem_alloc n os s = (p, t)" and "p \<noteq> 0"
  shows "p mod 4 = 0 \<and> header_size \<le> p \<and>
     p - header_size \<in> set (block_map t) \<and>
     \<not> free_b (hdr t (p - header_size)) \<and>
     n \<le> size_b (hdr t (p - header_size)) \<and>
     (\<forall>a \<in> set (block_map t). a \<noteq> p - header_size \<and> \<not> free_b (hdr t a) \<longrightarrow>
        a + header_size + size_b (hdr t a) \<le> p \<or>
        p + size_b (hdr t (p - header_size)) \<le> a + header_size)"
proof -
  let ?sz = "align_mem_size n"
  have sz: "?sz mod 4 = 0" by simp
  from mem_alloc_cases [OF assms(1,2)] assms(5,6)
  obtain s' b where v: "valid_state s'" and b: "b \<in> set (block_map s')"
    and fit: "?sz \<le> size_b (hdr s' b)" and p: "p = b + header_size"
    and t: "t = take_block b ?sz s'"
    by (auto simp add: placed_def)
  note taken = take_block_taken [OF v b sz fit, folded t]
  have "b mod 4 = 0" using valid_block [OF v b] by (rule conjunct1)
  then have "p mod 4 = 0" unfolding p using header_size_mod4 by (rule mod4_add)
  moreover have "n \<le> size_b (hdr t b)"
    using align_mem_size_ge [OF assms(4)] taken(2) by (rule le_trans)
  moreover have "\<forall>a \<in> set (block_map t). a \<noteq> b \<and> \<not> free_b (hdr t a) \<longrightarrow>
        a + header_size + size_b (hdr t a) \<le> b + header_size \<or>
        b + header_size + size_b (hdr t b) \<le> a + header_size"
    using take_block_disjoint [OF v b sz fit] unfolding t by blast
  ultimately show ?thesis using taken(1,4) by (simp add: p)
qed

text \<open>
  The theorem at \<open>allocate(200)\<close> after \<open>allocate(100)\<close>: the pointer is \<open>65668\<close>, and the
  block of the first allocation is the other in-use block.
\<close>

theorem allocate_sound_witness:
  "valid_state grow_s1 \<and> fresh_region 0 200 grow_s1 \<and> (0::nat) < 200 \<and>
   (200::nat) + 3 < 2 ^ 64 \<and> mem_alloc 200 0 grow_s1 = (65668, grow_s2) \<and>
   (65668::nat) mod 4 = 0 \<and> 65668 - header_size \<in> set (block_map grow_s2) \<and>
   \<not> free_b (hdr grow_s2 (65668 - header_size)) \<and>
   200 \<le> size_b (hdr grow_s2 (65668 - header_size)) \<and>
   65536 \<in> set (block_map grow_s2) \<and> \<not> free_b (hdr grow_s2 65536) \<and>
   (65536 + header_size + size_b (hdr grow_s2 65536) \<le> 65668 \<or>
    65668 + size_b (hdr grow_s2 (65668 - header_size)) \<le> 65536 + header_size)"
proof -
  have v: "valid_state grow_s1" by (rule grow_s1_valid)
  have f: "fresh_region 0 200 grow_s1" by (simp add: fresh_region_def)
  have "fst (mem_alloc 200 0 grow_s1) = 65668" by (simp add: grow_s1_def eval_defs)
  then have e: "mem_alloc 200 0 grow_s1 = (65668, grow_s2)"
    by (simp add: prod_eq_iff grow_s2_def)
  have o: "65536 \<in> set (block_map grow_s2)" "\<not> free_b (hdr grow_s2 65536)"
    "(65536::nat) \<noteq> 65668 - header_size"
    by (simp_all add: grow_s2_def grow_s1_def eval_defs)
  have n: "(0::nat) < 200" "(200::nat) + 3 < 2 ^ 64" "(65668::nat) \<noteq> 0" by simp_all
  note c = allocate_sound [OF v f n(1,2) e n(3)]
  from c have q: "\<forall>a \<in> set (block_map grow_s2).
      a \<noteq> 65668 - header_size \<and> \<not> free_b (hdr grow_s2 a) \<longrightarrow>
        a + header_size + size_b (hdr grow_s2 a) \<le> 65668 \<or>
        65668 + size_b (hdr grow_s2 (65668 - header_size)) \<le> a + header_size"
    by (elim conjE)
  from bspec [OF q o(1)] o(2,3)
  have d: "65536 + header_size + size_b (hdr grow_s2 65536) \<le> 65668 \<or>
    65668 + size_b (hdr grow_s2 (65668 - header_size)) \<le> 65536 + header_size"
    by blast
  from c v f e o(1,2) d n show ?thesis by (intro conjI) (elim conjE; assumption)+
qed

text \<open>
  Counterexample to claim C2 as stated: for \<open>n = 2 ^ 64 - 1\<close> the sum \<open>n + 3\<close> wraps
  around, \<open>align_mem_size\<close> yields \<open>0\<close>, and \<open>mem_alloc\<close> succeeds with a block of payload
  size \<open>0\<close>.
\<close>

theorem allocate_overflow_counterexample:
  "fst (mem_alloc (2 ^ 64 - 1) 65536 init_state) = 65552 \<and>
   65536 \<in> set (block_map (snd (mem_alloc (2 ^ 64 - 1) 65536 init_state))) \<and>
   \<not> free_b (hdr (snd (mem_alloc (2 ^ 64 - 1) 65536 init_state)) 65536) \<and>
   size_b (hdr (snd (mem_alloc (2 ^ 64 - 1) 65536 init_state)) 65536) = 0"
  by (simp add: eval_defs)

subsection \<open>C3\<close>




subsection \<open>C4\<close>

text \<open>
  Claim C4, amended. \<open>mem_realloc\<close> never grows a block into free space behind it. For a
  pointer whose header is indexed, when the payload size of the block is already at least
  the aligned new size, it returns the same pointer and does nothing but the in-place
  split: no allocation, no \<open>memcpy\<close>, no release; the bytes of the payload the block keeps
  and the arena list are untouched (the split writes the header of the carved-off block
  into the bytes behind them). In a well-formed state, with \<open>NULL\<close> or a fresh region from
  the operating system, it returns a different value (a relocated block or \<open>nullptr\<close>)
  whenever the payload size is smaller than the aligned new size.
\<close>

theorem realloc_same_pointer:
  assumes "block \<in> set (block_map s)" and "block + header_size < 2 ^ 64"
  shows "(align_mem_size sz \<le> size_b (hdr s block) \<longrightarrow>
            fst (mem_realloc (block + header_size) sz os s) = block + header_size \<and>
            snd (mem_realloc (block + header_size) sz os s) =
              split_mem_block block (align_mem_size sz) s \<and>
            (\<forall>x. block + header_size \<le> x \<and> x < block + header_size + align_mem_size sz \<longrightarrow>
               mem (snd (mem_realloc (block + header_size) sz os s)) x = mem s x) \<and>
            arena_list (snd (mem_realloc (block + header_size) sz os s)) = arena_list s) \<and>
         (valid_state s \<and> fresh_region os sz s \<and> size_b (hdr s block) < align_mem_size sz \<longrightarrow>
            fst (mem_realloc (block + header_size) sz os s) \<noteq> block + header_size)"
proof (intro conjI impI)
  assume fit: "align_mem_size sz \<le> size_b (hdr s block)"
  then have r: "mem_realloc (block + header_size) sz os s =
      (block + header_size, split_mem_block block (align_mem_size sz) s)"
    using assms by (simp add: mem_realloc_def Let_def sub_sz_header)
  show "fst (mem_realloc (block + header_size) sz os s) = block + header_size"
    by (simp add: r)
  show "snd (mem_realloc (block + header_size) sz os s) =
      split_mem_block block (align_mem_size sz) s"
    by (simp add: r)
  show "\<forall>x. block + header_size \<le> x \<and> x < block + header_size + align_mem_size sz \<longrightarrow>
      mem (snd (mem_realloc (block + header_size) sz os s)) x = mem s x"
    unfolding r snd_conv
    by (auto simp add: split_mem_block_def Let_def store_size_def store_flag_def
        header_size_def)
  show "arena_list (snd (mem_realloc (block + header_size) sz os s)) = arena_list s"
    by (simp add: r split_mem_block_def Let_def)
next
  assume h: "valid_state s \<and> fresh_region os sz s \<and> size_b (hdr s block) < align_mem_size sz"
  then have v: "valid_state s" and f: "fresh_region os (align_mem_size sz) s"
    and small: "size_b (hdr s block) < align_mem_size sz"
    by (simp_all add: fresh_region_def)
  let ?a = "mem_alloc (align_mem_size sz) os s"
  have r: "fst (mem_realloc (block + header_size) sz os s) = fst ?a"
    using assms small by (simp add: mem_realloc_def Let_def sub_sz_header split_beta)
  from mem_alloc_cases [OF v f]
  show "fst (mem_realloc (block + header_size) sz os s) \<noteq> block + header_size"
  proof
    assume "fst ?a = 0"
    then show ?thesis by (simp add: r)
  next
    assume "\<exists>s'. (s' = s \<or> os \<noteq> 0 \<and> s' = with_arena os (align_mem_size sz) s) \<and> valid_state s' \<and>
        placed s' (align_mem_size (align_mem_size sz)) ?a"
    then obtain s' where s': "s' = s \<or> os \<noteq> 0 \<and> s' = with_arena os (align_mem_size sz) s"
      and pl: "placed s' (align_mem_size sz) ?a"
      by auto
    from pl obtain b where fit: "align_mem_size sz \<le> size_b (hdr s' b)"
      and eq: "?a = (b + header_size, take_block b (align_mem_size sz) s')"
      unfolding placed_def by blast
    from eq have p: "fst ?a = b + header_size" by simp
    have "os \<noteq> 0 \<Longrightarrow> block \<noteq> os"
      using fresh_region_not_indexed [OF v f] assms(1) by blast
    then have "hdr s' block = hdr s block"
      using s' by (auto simp add: with_arena_fields)
    with fit small have "b \<noteq> block" by auto
    then show ?thesis by (simp add: r p)
  qed
qed

text \<open>
  The theorem in the state of the counterexample: \<open>reallocate(65552, 60)\<close> keeps the
  pointer, \<open>reallocate(65552, 150)\<close> does not.
\<close>

theorem realloc_same_pointer_witness:
  "65536 \<in> set (block_map grow_s3) \<and> (65536::nat) + header_size < 2 ^ 64 \<and>
   align_mem_size 60 \<le> size_b (hdr grow_s3 65536) \<and>
   fst (mem_realloc (65536 + header_size) 60 0 grow_s3) = 65536 + header_size \<and>
   snd (mem_realloc (65536 + header_size) 60 0 grow_s3) =
     split_mem_block 65536 (align_mem_size 60) grow_s3 \<and>
   mem (snd (mem_realloc (65536 + header_size) 60 0 grow_s3)) 65600 = mem grow_s3 65600 \<and>
   mem (snd (mem_realloc (65536 + header_size) 60 0 grow_s3)) 65620 \<noteq> mem grow_s3 65620 \<and>
   valid_state grow_s3 \<and> fresh_region 0 150 grow_s3 \<and>
   size_b (hdr grow_s3 65536) < align_mem_size 150 \<and>
   fst (mem_realloc (65536 + header_size) 150 0 grow_s3) \<noteq> 65536 + header_size"
proof -
  have a: "65536 \<in> set (block_map grow_s3)" "(65536::nat) + header_size < 2 ^ 64"
    by (simp_all add: grow_s3_def grow_s2_def grow_s1_def eval_defs)
  have b: "align_mem_size 60 \<le> size_b (hdr grow_s3 65536)"
    "size_b (hdr grow_s3 65536) < align_mem_size 150"
    by (simp_all add: grow_s3_def grow_s2_def grow_s1_def eval_defs)
  have v: "valid_state grow_s3"
    by (simp add: valid_defs grow_s3_def grow_s2_def grow_s1_def eval_defs)
  have f: "fresh_region 0 150 grow_s3" by (simp add: fresh_region_def)
  have i: "65536 + header_size \<le> (65600::nat) \<and> (65600::nat) < 65536 + header_size + align_mem_size 60"
    by (simp add: header_size_def align_mem_size_def)
  have c: "mem (snd (mem_realloc (65536 + header_size) 60 0 grow_s3)) 65620 \<noteq> mem grow_s3 65620"
    by (simp add: grow_s3_def grow_s2_def grow_s1_def eval_defs store_defs)
  note t = realloc_same_pointer [OF a, of 60 0]
  from t b(1) have k: "\<forall>x. 65536 + header_size \<le> x \<and> x < 65536 + header_size + align_mem_size 60 \<longrightarrow>
      mem (snd (mem_realloc (65536 + header_size) 60 0 grow_s3)) x = mem grow_s3 x"
    by blast
  from k i have m: "mem (snd (mem_realloc (65536 + header_size) 60 0 grow_s3)) 65600 = mem grow_s3 65600"
    by blast
  from t b(1) have e: "fst (mem_realloc (65536 + header_size) 60 0 grow_s3) = 65536 + header_size"
    "snd (mem_realloc (65536 + header_size) 60 0 grow_s3) =
       split_mem_block 65536 (align_mem_size 60) grow_s3"
    by blast+
  from realloc_same_pointer [OF a, of 150 0] b(2) v f
  have n: "fst (mem_realloc (65536 + header_size) 150 0 grow_s3) \<noteq> 65536 + header_size"
    by blast
  from a b v f e m c n show ?thesis by (intro conjI)
qed

text \<open>
  Counterexample to claim C4 as stated: \<open>allocate(100)\<close> returns \<open>65552\<close>, the block right
  behind it is allocated and released, leaving \<open>3964\<close> free bytes behind the block of
  \<open>100\<close>; \<open>reallocate(65552, 150)\<close> returns \<open>65668\<close>, another address.
\<close>

theorem realloc_grow_counterexample:
  "fst (mem_alloc 100 65536 init_state) = 65552 \<and>
   fst (mem_alloc 200 0 grow_s1) = 65668 \<and>
   65668 = 65552 + size_b (hdr grow_s2 65536) + header_size \<and>
   free_b (hdr grow_s3 65652) \<and> size_b (hdr grow_s3 65652) = 3964 \<and>
   size_b (hdr grow_s3 65536) = 100 \<and>
   fst (mem_realloc 65552 150 0 grow_s3) = 65668"
  by (simp add: grow_s3_def grow_s2_def grow_s1_def eval_defs)

subsection \<open>C5\<close>

text \<open>
  Claim C5, evaluated where the code departs from it. Two arenas of 64 KiB lie back to back
  at \<open>65536\<close> and \<open>131072\<close>. Before the second release the block at \<open>65536\<close> is free, has
  its \<open>last\<close> flag set and fills the first arena; the block at \<open>131072\<close> is the first block
  of the second arena. The merge pass of the second release lets the block at \<open>65536\<close>
  absorb the block at \<open>131072\<close>.
\<close>

theorem merge_crosses_arena:
  "arena_list adj_s3 = [\<lparr>size_a = 65536, base_a = 131072\<rparr>, \<lparr>size_a = 65536, base_a = 65536\<rparr>] \<and>
   block_map adj_s3 = [131072, 65536] \<and>
   free_b (hdr adj_s3 65536) \<and> last_b (hdr adj_s3 65536) \<and> size_b (hdr adj_s3 65536) = 65520 \<and>
   first_b (hdr adj_s3 131072) \<and> \<not> free_b (hdr adj_s3 131072) \<and>
   arena_list adj_s4 = arena_list adj_s3 \<and>
   block_map adj_s4 = [65536] \<and>
   size_b (hdr adj_s4 65536) = 131056"
  by (simp add: adj_s4_def adj_s3_def adj_s2_def adj_s1_def eval_defs)

text \<open>
  What follows from the merge: the header at \<open>131072\<close> is no longer indexed but still
  read by the walk over the second arena, so \<open>allocate(100)\<close> hands out \<open>131088\<close> from
  it; \<open>allocate(70000)\<close> then takes the merged block at \<open>65536\<close>, whose payload
  \<open>[65552, 135552)\<close> contains \<open>131088\<close>. Both blocks are in use.
\<close>

lemma merge_crosses_arena_overlap:
  "fst (mem_alloc 100 0 adj_s4) = 131088 \<and> 131072 \<notin> set (block_map adj_s5) \<and>
   fst (mem_alloc 70000 0 adj_s5) = 65552 \<and>
   \<not> free_b (hdr adj_s6 131072) \<and> size_b (hdr adj_s6 131072) = 100 \<and>
   \<not> free_b (hdr adj_s6 65536) \<and> size_b (hdr adj_s6 65536) = 70000"
  by (simp add: adj_s6_def adj_s5_def adj_s4_def adj_s3_def adj_s2_def adj_s1_def eval_defs)

subsection \<open>C6\<close>

text \<open>
  Claim C6, amended. Let \<open>p\<close> be a pointer whose header is indexed and whose block is
  smaller than the aligned new size. If the aligned new size plus \<open>sizeof(MemBlock)\<close> does
  not wrap around \<open>2 ^ 64\<close>, the region the operating system would return ends inside
  the address space, and the fallback \<open>mem_alloc\<close> fails, then \<open>mem_realloc\<close> returns
  \<open>nullptr\<close> and the whole state, arena list, index, headers and payload bytes, is the one
  before the call.
\<close>

theorem realloc_failure_atomic:
  assumes "block \<in> set (block_map s)" and "block + header_size < 2 ^ 64"
    and "size_b (hdr s block) < align_mem_size sz"
    and "align_mem_size sz + header_size < 2 ^ 64"
    and "os + arena_request sz < 2 ^ 64"
    and "fst (mem_alloc (align_mem_size sz) os s) = 0"
  shows "mem_realloc (block + header_size) sz os s = (0, s)"
proof -
  have "snd (mem_alloc (align_mem_size sz) os s) = s"
    using assms(4,5,6) by (intro mem_alloc_null) simp_all
  with assms(6) have "mem_alloc (align_mem_size sz) os s = (0, s)"
    by (simp add: prod_eq_iff)
  with assms(1,2,3) show ?thesis
    by (simp add: mem_realloc_def Let_def sub_sz_header)
qed

text \<open>
  The theorem at \<open>reallocate(65552, 8000)\<close> after \<open>allocate(100)\<close>, the operating system
  refusing a new region.
\<close>

theorem realloc_failure_atomic_witness:
  "65536 \<in> set (block_map grow_s1) \<and> (65536::nat) + header_size < 2 ^ 64 \<and>
   size_b (hdr grow_s1 65536) < align_mem_size 8000 \<and>
   align_mem_size 8000 + header_size < 2 ^ 64 \<and>
   0 + arena_request 8000 < 2 ^ 64 \<and>
   fst (mem_alloc (align_mem_size 8000) 0 grow_s1) = 0 \<and>
   mem_realloc (65536 + header_size) 8000 0 grow_s1 = (0, grow_s1)"
proof -
  have a: "65536 \<in> set (block_map grow_s1)" "(65536::nat) + header_size < 2 ^ 64"
    "size_b (hdr grow_s1 65536) < align_mem_size 8000"
    "align_mem_size 8000 + header_size < 2 ^ 64"
    "0 + arena_request 8000 < 2 ^ 64"
    by (simp_all add: arena_request_def grow_s1_def eval_defs)
  have b: "fst (mem_alloc (align_mem_size 8000) 0 grow_s1) = 0"
    by (simp add: grow_s1_def eval_defs)
  from realloc_failure_atomic [OF a b] a b show ?thesis by simp
qed

text \<open>
  Counterexample to claim C6 as stated: the request \<open>2 ^ 64 - 8\<close> makes the arena size
  computation \<open>size + sizeof(MemBlock)\<close> wrap around; the fallback allocation creates an
  arena of the default size, fails to place the block in it and returns \<open>nullptr\<close>, and
  the new arena stays in the arena list.
\<close>

theorem realloc_failure_counterexample:
  "fst (mem_alloc 100 65536 init_state) = 65552 \<and>
   size_b (hdr grow_s1 65536) < align_mem_size (2 ^ 64 - 8) \<and>
   fst (mem_alloc (align_mem_size (2 ^ 64 - 8)) 131072 grow_s1) = 0 \<and>
   fst (mem_realloc 65552 (2 ^ 64 - 8) 131072 grow_s1) = 0 \<and>
   arena_list grow_s1 = [\<lparr>size_a = 4096, base_a = 65536\<rparr>] \<and>
   arena_list (snd (mem_realloc 65552 (2 ^ 64 - 8) 131072 grow_s1)) =
     [\<lparr>size_a = 4096, base_a = 131072\<rparr>, \<lparr>size_a = 4096, base_a = 65536\<rparr>]"
  by (simp add: grow_s1_def eval_defs)

subsection \<open>C7\<close>

text \<open>
  Claim C7, evaluated where the code departs from it. After the merge across the arena
  boundary of C5 and two calls \<open>allocate(100)\<close>, the block at \<open>131188\<close> is indexed, in use
  and of payload size \<open>100\<close>, and the merged free block at \<open>65536\<close> still spans its
  address. \<open>reallocate(131204, 65636)\<close> relocates: its fallback allocation takes the
  merged block and writes the header of the remainder at \<open>131188\<close>, over the header of
  the block being moved, so that the \<open>memcpy\<close> that follows copies \<open>65404\<close> bytes and not
  \<open>min(100, 65636)\<close>; the byte at offset \<open>100\<close> of the new payload is overwritten.
\<close>

theorem realloc_copies_beyond_block:
  "fst (mem_alloc 100 0 adj_s4) = 131088 \<and> fst (mem_alloc 100 0 adj_s5) = 131204 \<and>
   131188 \<in> set (block_map reloc_s1) \<and> \<not> free_b (hdr reloc_s1 131188) \<and>
   size_b (hdr reloc_s1 131188) = 100 \<and>
   size_b (hdr reloc_s1 131188) < align_mem_size 65636 \<and>
   fst (mem_alloc (align_mem_size 65636) 0 reloc_s1) = 65552 \<and>
   size_b (hdr reloc_s2 131188) = 65404 \<and>
   mem_realloc 131204 65636 0 reloc_s1 =
     (65552, mem_free 131204 (memcpy 65552 131204 65404 reloc_s2)) \<and>
   mem reloc_s1 (65552 + 100) = 0 \<and>
   mem (snd (mem_realloc 131204 65636 0 reloc_s1)) (65552 + 100) = 8"
proof -
  have a: "fst (mem_alloc 100 0 adj_s4) = 131088" "fst (mem_alloc 100 0 adj_s5) = 131204"
    by (simp_all add: adj_defs eval_defs)
  have b: "sub_sz 131204 header_size = 131188" "131188 \<in> set (block_map reloc_s1)"
    "\<not> free_b (hdr reloc_s1 131188)" "size_b (hdr reloc_s1 131188) = 100"
    "size_b (hdr reloc_s1 131188) < align_mem_size 65636"
    by (simp_all add: reloc_s1_def adj_defs eval_defs)
  have c: "fst (mem_alloc (align_mem_size 65636) 0 reloc_s1) = 65552"
    by (simp add: reloc_s1_def adj_defs eval_defs)
  have d: "size_b (hdr reloc_s2 131188) = 65404"
    by (simp add: reloc_s2_def reloc_s1_def adj_defs eval_defs)
  from c have e: "mem_alloc (align_mem_size 65636) 0 reloc_s1 = (65552, reloc_s2)"
    by (simp add: prod_eq_iff reloc_s2_def)
  have r: "mem_realloc 131204 65636 0 reloc_s1 =
      (65552, mem_free 131204 (memcpy 65552 131204 65404 reloc_s2))"
    using b by (simp add: mem_realloc_def Let_def e d)
  have m: "mem reloc_s1 (65552 + 100) = 0"
    by (simp add: reloc_s1_def adj_defs eval_defs store_defs)
  have n: "mem (mem_free 131204 (memcpy 65552 131204 65404 reloc_s2)) (65552 + 100) = 8"
    by (simp add: reloc_s2_def reloc_s1_def adj_defs eval_defs store_defs)
  from a b(2-5) c d r m n show ?thesis by (simp only: r snd_conv simp_thms)
qed

subsection \<open>C8\<close>

text \<open>
  Claim C8. \<open>mem_free(nullptr)\<close> does nothing; \<open>mem_free(p)\<close> for a pointer whose header
  address \<open>p - sizeof(MemBlock)\<close> is not in the index does nothing either, so repeating
  the call changes nothing; and \<open>mem_realloc\<close> on such a non-null pointer returns
  \<open>nullptr\<close> with the state unchanged. The source has no error channel besides the
  \<open>nullptr\<close> result.
\<close>

theorem unknown_pointer_ignored:
  "ptr = 0 \<or> sub_sz ptr header_size \<notin> set (block_map s) \<Longrightarrow>
   mem_free ptr s = s \<and> mem_free ptr (mem_free ptr s) = mem_free ptr s \<and>
   (ptr \<noteq> 0 \<longrightarrow> mem_realloc ptr sz os s = (0, s))"
  by (auto simp add: mem_free_def mem_realloc_def Let_def)

text \<open>The theorem at the pointer \<open>70000\<close>, which no allocation has returned.\<close>

theorem unknown_pointer_ignored_witness:
  "sub_sz 70000 header_size \<notin> set (block_map grow_s1) \<and>
   mem_free 70000 grow_s1 = grow_s1 \<and>
   mem_free 70000 (mem_free 70000 grow_s1) = mem_free 70000 grow_s1 \<and>
   mem_realloc 70000 8 0 grow_s1 = (0, grow_s1)"
proof -
  have h: "sub_sz 70000 header_size \<notin> set (block_map grow_s1)"
    by (simp add: grow_s1_def eval_defs)
  show ?thesis
    using unknown_pointer_ignored [of 70000 grow_s1 8 0] h by simp
qed

subsection \<open>C9\<close>

text \<open>
  Claim C9. In every allocator state \<open>mem_alloc(0)\<close> returns \<open>nullptr\<close> and leaves the
  state as it was: no arena is created, no block is split or marked in-use, the index is
  unchanged.
\<close>

theorem mem_alloc_zero: "mem_alloc 0 os s = (0, s)"
  by (simp add: mem_alloc_def)

subsection \<open>C10\<close>

text \<open>
  Claim C10, amended. For a pointer \<open>p = block + sizeof(MemBlock)\<close> whose header is
  indexed, \<open>mem_realloc(p, 0)\<close> returns \<open>p\<close>, keeps the header indexed and leaves its
  \<open>free\<close> flag as it was. When the payload size is at least \<open>sizeof(MemBlock) + 4\<close>, the
  block shrinks to payload size \<open>0\<close> and a new free block of size
  \<open>old size - sizeof(MemBlock)\<close> is indexed at \<open>p\<close>, so that header and payload of the new
  block cover the former payload; when it is smaller, the state is unchanged.
\<close>

theorem realloc_zero:
  assumes "block \<in> set (block_map s)" and "block + header_size < 2 ^ 64"
    and "size_b (hdr s block) < 2 ^ 64"
  shows "fst (mem_realloc (block + header_size) 0 os s) = block + header_size \<and>
     block \<in> set (block_map (snd (mem_realloc (block + header_size) 0 os s))) \<and>
     free_b (hdr (snd (mem_realloc (block + header_size) 0 os s)) block) = free_b (hdr s block) \<and>
     (header_size + 4 \<le> size_b (hdr s block) \<longrightarrow>
        size_b (hdr (snd (mem_realloc (block + header_size) 0 os s)) block) = 0 \<and>
        block + header_size \<in> set (block_map (snd (mem_realloc (block + header_size) 0 os s))) \<and>
        free_b (hdr (snd (mem_realloc (block + header_size) 0 os s)) (block + header_size)) \<and>
        size_b (hdr (snd (mem_realloc (block + header_size) 0 os s)) (block + header_size)) =
          size_b (hdr s block) - header_size) \<and>
     (size_b (hdr s block) < header_size + 4 \<longrightarrow>
        snd (mem_realloc (block + header_size) 0 os s) = s)"
proof -
  have r: "mem_realloc (block + header_size) 0 os s = (block + header_size, split_mem_block block 0 s)"
    using assms(1,2) by (simp add: mem_realloc_def Let_def sub_sz_header)
  have g: "add_sz (add_sz 0 header_size) 4 = header_size + 4"
    by (simp add: add_sz_def header_size_def)
  have z: "sub_sz (size_b (hdr s block)) 0 = size_b (hdr s block)"
    using assms(3) by (simp add: sub_sz_small)
  show ?thesis
  proof (cases "header_size + 4 \<le> size_b (hdr s block)")
    case True
    then have "sub_sz (size_b (hdr s block)) header_size = size_b (hdr s block) - header_size"
      using assms(3) by (intro sub_sz_small) simp_all
    with True show ?thesis
      by (simp add: r split_mem_block_def Let_def g z assms(1))
  next
    case False
    then show ?thesis
      by (simp add: r split_mem_block_def Let_def g assms(1))
  qed
qed

text \<open>The theorem at \<open>reallocate(65552, 0)\<close> after \<open>allocate(100)\<close>.\<close>

theorem realloc_zero_witness:
  "65536 \<in> set (block_map grow_s1) \<and> (65536::nat) + header_size < 2 ^ 64 \<and>
   size_b (hdr grow_s1 65536) = 100 \<and>
   fst (mem_realloc (65536 + header_size) 0 0 grow_s1) = 65536 + header_size \<and>
   size_b (hdr (snd (mem_realloc (65536 + header_size) 0 0 grow_s1)) 65536) = 0 \<and>
   \<not> free_b (hdr (snd (mem_realloc (65536 + header_size) 0 0 grow_s1)) 65536) \<and>
   65536 + header_size \<in> set (block_map (snd (mem_realloc (65536 + header_size) 0 0 grow_s1))) \<and>
   free_b (hdr (snd (mem_realloc (65536 + header_size) 0 0 grow_s1)) (65536 + header_size)) \<and>
   size_b (hdr (snd (mem_realloc (65536 + header_size) 0 0 grow_s1)) (65536 + header_size)) =
     100 - header_size"
proof -
  have a: "65536 \<in> set (block_map grow_s1)" "(65536::nat) + header_size < 2 ^ 64"
    by (simp_all add: grow_s1_def eval_defs)
  have b: "size_b (hdr grow_s1 65536) = 100" "\<not> free_b (hdr grow_s1 65536)"
    by (simp_all add: grow_s1_def eval_defs)
  have c: "size_b (hdr grow_s1 65536) < 2 ^ 64" by (simp add: b)
  have d: "header_size + 4 \<le> (100::nat)" by (simp add: header_size_def)
  from realloc_zero [OF a c, of 0] a b d show ?thesis by simp
qed

text \<open>
  Counterexample to claim C10 as stated: a block of payload size \<open>4\<close> is too small to be
  split, and \<open>reallocate(p, 0)\<close> leaves its size at \<open>4\<close>.
\<close>

theorem realloc_zero_counterexample:
  "fst (mem_alloc 4 65536 init_state) = 65552 \<and>
   65536 \<in> set (block_map tiny_s1) \<and>
   fst (mem_realloc 65552 0 0 tiny_s1) = 65552 \<and>
   size_b (hdr (snd (mem_realloc 65552 0 0 tiny_s1)) 65536) = 4"
  by (simp add: tiny_s1_def eval_defs)

end
